theory Spec2Isabelle
  imports Complex_Main
begin

section \<open>Data model\<close>

text \<open>
  Every way in which the C++ code stops without a result is a value of \<open>error\<close>:
  dereferencing a pointer that names no node (the null pointers that
  \<^verbatim>\<open>edges[edge_idx]\<close> yields for an unknown edge id included), indexing a
  vector or copying a range outside its bounds, a failed \<^verbatim>\<open>assert\<close>, the
  increment of an \<^verbatim>\<open>int\<close> counter at \<^verbatim>\<open>INT_MAX\<close>, and
  \<^verbatim>\<open>front()\<close> on an empty queue.
\<close>

datatype error = InvalidPointer | OutOfRange | AssertionFailed | SignedOverflow | EmptyQueue

text \<open>
  Modelled from the spec: the class \<^verbatim>\<open>FAO\<close> of \<^verbatim>\<open>FAO.hpp\<close>, which is not
  part of the sources. The fields are the ones \<^verbatim>\<open>FAO_DAG.hpp\<close> reads and writes.
  Scalars (\<^verbatim>\<open>double\<close>) are only ever copied by the engine, so their type is a
  parameter \<open>'a\<close>. A \<^verbatim>\<open>std::map\<close> is a partial function; a shape is the
  list of its dimensions.
\<close>

record 'a FAO =
  input_data :: "'a list"
  output_data :: "'a list"
  input_edges :: "int list"
  output_edges :: "int list"
  input_sizes :: "nat list list"
  output_sizes :: "nat list list"
  input_offsets :: "int \<rightharpoonup> nat"
  output_offsets :: "int \<rightharpoonup> nat"

text \<open>
  The nodes live in a heap; a pointer \<^verbatim>\<open>FAO*\<close> is an index into it, and an index
  beyond the heap is a pointer that must not be dereferenced.

  The fields of \<^verbatim>\<open>FAO_DAG\<close>. The arrival counters are \<^verbatim>\<open>size_t\<close>; a
  counter is incremented at most once for each step of the traversal, so it is a natural
  number that never reaches \<open>2 ^ 64\<close>. The call counters are \<^verbatim>\<open>int\<close>. The
  cumulative times are \<^verbatim>\<open>double\<close>; they are kept as reals, and no statement
  below depends on their values.
\<close>

record FAO_DAG =
  start_node :: nat
  end_node :: nat
  edges :: "int \<rightharpoonup> nat \<times> nat"
  ready_queue :: "nat list"
  eval_map :: "nat \<rightharpoonup> nat"
  forward_evals :: int
  adjoint_evals :: int
  total_forward_eval_time :: real
  total_adjoint_eval_time :: real

type_synonym 'a state = "'a FAO list \<times> FAO_DAG"

section \<open>The traversal scheduler\<close>

text \<open>\<^verbatim>\<open>eval_map[k]\<close> reads 0 for an absent key; \<^verbatim>\<open>eval_map[k]++\<close> stores the successor.\<close>

definition eval_map_at :: "(nat \<rightharpoonup> nat) \<Rightarrow> nat \<Rightarrow> nat" where
  "eval_map_at m k = (case m k of None \<Rightarrow> 0 | Some c \<Rightarrow> c)"

definition eval_map_incr :: "(nat \<rightharpoonup> nat) \<Rightarrow> nat \<Rightarrow> (nat \<rightharpoonup> nat)" where
  "eval_map_incr m k = m(k \<mapsto> eval_map_at m k + 1)"

text \<open>The body of the \<^verbatim>\<open>for\<close> loop of \<^verbatim>\<open>traverse_graph\<close>, for one edge id.\<close>

definition visit_edge :: "bool \<Rightarrow> 'a FAO list \<Rightarrow> FAO_DAG \<Rightarrow> int \<Rightarrow> error + FAO_DAG" where
  "visit_edge forward h g edge_idx =
     (case edges g edge_idx of
        None \<Rightarrow> Inl InvalidPointer
      | Some edge \<Rightarrow>
          let node = (if forward then snd edge else fst edge);
              em = eval_map_incr (eval_map g) node
          in if node < length h then
               let node_inputs_count =
                     (if forward then length (input_edges (h ! node))
                      else length (output_edges (h ! node)))
               in Inr (g\<lparr>eval_map := em,
                         ready_queue := (if eval_map_at em node = node_inputs_count
                                         then ready_queue g @ [node] else ready_queue g)\<rparr>)
             else Inl InvalidPointer)"

fun visit_edges :: "bool \<Rightarrow> 'a FAO list \<Rightarrow> int list \<Rightarrow> FAO_DAG \<Rightarrow> error + FAO_DAG" where
  "visit_edges forward h [] g = Inr g"
| "visit_edges forward h (edge_idx # rest) g =
     (case visit_edge forward h g edge_idx of
        Inl err \<Rightarrow> Inl err
      | Inr g' \<Rightarrow> visit_edges forward h rest g')"

text \<open>
  One iteration of the \<^verbatim>\<open>while\<close> loop: take the front node, apply the visitor,
  count the visit, and walk the node's child edges. The visitor gets the node pointer and
  returns the heap it leaves behind.
\<close>

definition loop_body ::
  "(nat \<Rightarrow> 'a FAO list \<Rightarrow> error + 'a FAO list) \<Rightarrow> bool \<Rightarrow> 'a state \<Rightarrow> error + 'a state" where
  "loop_body node_fn forward s =
     (case s of (h, g) \<Rightarrow>
       (case ready_queue g of
          [] \<Rightarrow> Inl EmptyQueue
        | curr_node # rest \<Rightarrow>
            (case node_fn curr_node h of
               Inl err \<Rightarrow> Inl err
             | Inr h' \<Rightarrow>
                 if curr_node < length h' then
                   (case visit_edges forward h'
                           (if forward then output_edges (h' ! curr_node) else input_edges (h' ! curr_node))
                           (g\<lparr>ready_queue := rest,
                              eval_map := eval_map_incr (eval_map g) curr_node\<rparr>) of
                      Inl err \<Rightarrow> Inl err
                    | Inr g' \<Rightarrow> Inr (h', g'))
                 else Inl InvalidPointer)))"

text \<open>The \<^verbatim>\<open>while\<close> loop. It need not end for every visitor, so its value is an option.\<close>

partial_function (option) traverse_loop ::
  "(nat \<Rightarrow> 'a FAO list \<Rightarrow> error + 'a FAO list) \<Rightarrow> bool \<Rightarrow> 'a state \<Rightarrow> (error + 'a state) option" where
  "traverse_loop node_fn forward s =
     (if ready_queue (snd s) = [] then Some (Inr s)
      else case loop_body node_fn forward s of
             Inl err \<Rightarrow> Some (Inl err)
           | Inr s' \<Rightarrow> traverse_loop node_fn forward s')"

declare traverse_loop.simps [code]

definition traverse_graph ::
  "(nat \<Rightarrow> 'a FAO list \<Rightarrow> error + 'a FAO list) \<Rightarrow> bool \<Rightarrow> 'a state \<Rightarrow> (error + 'a state) option" where
  "traverse_graph node_fn forward s =
     (case s of (h, g) \<Rightarrow>
        let start = (if forward then start_node g else end_node g)
        in case traverse_loop node_fn forward (h, g\<lparr>ready_queue := ready_queue g @ [start]\<rparr>) of
             None \<Rightarrow> None
           | Some (Inl err) \<Rightarrow> Some (Inl err)
           | Some (Inr (h', g')) \<Rightarrow> Some (Inr (h', g'\<lparr>eval_map := Map.empty\<rparr>)))"

text \<open>The configuration after at most \<open>k\<close> iterations of the loop (the loop's exit state, if it is reached earlier).\<close>

fun loop_prefix ::
  "(nat \<Rightarrow> 'a FAO list \<Rightarrow> error + 'a FAO list) \<Rightarrow> bool \<Rightarrow> nat \<Rightarrow> 'a state \<Rightarrow> error + 'a state" where
  "loop_prefix node_fn forward 0 s = Inr s"
| "loop_prefix node_fn forward (Suc k) s =
     (if ready_queue (snd s) = [] then Inr s
      else case loop_body node_fn forward s of
             Inl err \<Rightarrow> Inl err
           | Inr s' \<Rightarrow> loop_prefix node_fn forward k s')"

section \<open>Boundary buffers\<close>

text \<open>
  The accessors return the address of a buffer inside a node: which node, and which of
  its two buffers.
\<close>

datatype buffer_ref = InputData nat | OutputData nat

definition get_forward_input :: "FAO_DAG \<Rightarrow> buffer_ref" where
  "get_forward_input g = InputData (start_node g)"

definition get_forward_output :: "FAO_DAG \<Rightarrow> buffer_ref" where
  "get_forward_output g = OutputData (end_node g)"

definition get_adjoint_input :: "FAO_DAG \<Rightarrow> buffer_ref" where
  "get_adjoint_input g = get_forward_output g"

definition get_adjoint_output :: "FAO_DAG \<Rightarrow> buffer_ref" where
  "get_adjoint_output g = get_forward_input g"

fun read_buffer :: "'a FAO list \<Rightarrow> buffer_ref \<Rightarrow> error + 'a list" where
  "read_buffer h (InputData n) = (if n < length h then Inr (input_data (h ! n)) else Inl InvalidPointer)"
| "read_buffer h (OutputData n) = (if n < length h then Inr (output_data (h ! n)) else Inl InvalidPointer)"

fun write_buffer :: "'a FAO list \<Rightarrow> buffer_ref \<Rightarrow> 'a list \<Rightarrow> error + 'a FAO list" where
  "write_buffer h (InputData n) v =
     (if n < length h then Inr (h[n := (h ! n)\<lparr>input_data := v\<rparr>]) else Inl InvalidPointer)"
| "write_buffer h (OutputData n) v =
     (if n < length h then Inr (h[n := (h ! n)\<lparr>output_data := v\<rparr>]) else Inl InvalidPointer)"

text \<open>
  Modelled from the spec: \<^verbatim>\<open>gsl::vector_memcpy\<close> of \<^verbatim>\<open>gsl/gsl_vector.h\<close>, which
  is not part of the sources. It copies as many elements as the vector has, from a raw
  array into the vector or from the vector into a raw array.
\<close>

definition vector_memcpy_in :: "'a list \<Rightarrow> 'a list \<Rightarrow> 'a list" where
  "vector_memcpy_in vec arr = take (length vec) arr"

definition vector_memcpy_out :: "'a list \<Rightarrow> 'a list \<Rightarrow> 'a list" where
  "vector_memcpy_out arr vec = vec @ drop (length vec) arr"

text \<open>\<^verbatim>\<open>copy_input\<close> returns the heap; \<^verbatim>\<open>copy_output\<close> returns the caller's array.\<close>

definition copy_input :: "'a list \<Rightarrow> bool \<Rightarrow> 'a state \<Rightarrow> error + 'a state" where
  "copy_input input forward s =
     (case s of (h, g) \<Rightarrow>
        let input_vec = (if forward then get_forward_input g else get_adjoint_input g)
        in case read_buffer h input_vec of
             Inl err \<Rightarrow> Inl err
           | Inr vec \<Rightarrow>
               if length input = length vec then
                 (case write_buffer h input_vec (vector_memcpy_in vec input) of
                    Inl err \<Rightarrow> Inl err
                  | Inr h' \<Rightarrow> Inr (h', g))
               else Inl AssertionFailed)"

definition copy_output :: "'a list \<Rightarrow> bool \<Rightarrow> 'a state \<Rightarrow> error + 'a list" where
  "copy_output output forward s =
     (case s of (h, g) \<Rightarrow>
        let output_vec = (if forward then get_forward_output g else get_adjoint_output g)
        in case read_buffer h output_vec of
             Inl err \<Rightarrow> Inl err
           | Inr vec \<Rightarrow>
               if length output = length vec then Inr (vector_memcpy_out output vec)
               else Inl AssertionFailed)"

section \<open>Evaluation\<close>

text \<open>
  Modelled from the spec: \<^verbatim>\<open>gsl::vector_subvec_memcpy\<close> of
  \<^verbatim>\<open>gsl/gsl_vector.h\<close>, which is not part of the sources. It copies \<open>len\<close>
  elements of \<open>src\<close>, from \<open>src_offset\<close> on, over the elements of \<open>dst\<close> from
  \<open>dst_offset\<close> on. A range that leaves either buffer is an error.
\<close>

definition vector_subvec_memcpy ::
  "'a list \<Rightarrow> nat \<Rightarrow> 'a list \<Rightarrow> nat \<Rightarrow> nat \<Rightarrow> error + 'a list" where
  "vector_subvec_memcpy dst dst_offset src src_offset len =
     (if dst_offset + len \<le> length dst \<and> src_offset + len \<le> length src
      then Inr (take dst_offset dst @ take len (drop src_offset src) @ drop (dst_offset + len) dst)
      else Inl OutOfRange)"

text \<open>\<^verbatim>\<open>m[k]\<close> on a \<^verbatim>\<open>std::map\<close> of offsets: an absent key is inserted with the value 0.\<close>

definition offset_at :: "(int \<rightharpoonup> nat) \<Rightarrow> int \<Rightarrow> nat" where
  "offset_at m k = (case m k of None \<Rightarrow> 0 | Some v \<Rightarrow> v)"

definition offset_touch :: "(int \<rightharpoonup> nat) \<Rightarrow> int \<Rightarrow> (int \<rightharpoonup> nat)" where
  "offset_touch m k = m(k \<mapsto> offset_at m k)"

text \<open>
  The body of the copy loop of \<^verbatim>\<open>forward_eval\<close>, for position \<open>i\<close> of the node's
  output edges. The node's element-count conversion \<^verbatim>\<open>get_elem_length\<close> is a
  virtual method of \<^verbatim>\<open>FAO.hpp\<close> and a parameter here: it gets the node and the shape.
  An edge id goes through \<^verbatim>\<open>size_t\<close> and back to the key type, which gives the same id.
\<close>

definition forward_copy ::
  "(nat \<Rightarrow> nat list \<Rightarrow> nat) \<Rightarrow> (int \<rightharpoonup> nat \<times> nat) \<Rightarrow> nat \<Rightarrow> nat \<Rightarrow> 'a FAO list \<Rightarrow> error + 'a FAO list" where
  "forward_copy get_elem_length tbl node i h =
     (if \<not> node < length h then Inl InvalidPointer
      else if \<not> i < length (output_edges (h ! node)) then Inl OutOfRange
      else
        let edge_idx = output_edges (h ! node) ! i in
        case tbl edge_idx of
          None \<Rightarrow> Inl InvalidPointer
        | Some edge \<Rightarrow>
            let target = snd edge in
            if \<not> i < length (output_sizes (h ! node)) then Inl OutOfRange
            else
              let len = get_elem_length node (output_sizes (h ! node) ! i);
                  node_offset = offset_at (output_offsets (h ! node)) edge_idx;
                  h1 = h[node := (h ! node)\<lparr>output_offsets := offset_touch (output_offsets (h ! node)) edge_idx\<rparr>]
              in if \<not> target < length h1 then Inl InvalidPointer
                 else
                   let target_offset = offset_at (input_offsets (h1 ! target)) edge_idx;
                       h2 = h1[target := (h1 ! target)\<lparr>input_offsets := offset_touch (input_offsets (h1 ! target)) edge_idx\<rparr>]
                   in case vector_subvec_memcpy (input_data (h2 ! target)) target_offset
                             (output_data (h2 ! node)) node_offset len of
                        Inl err \<Rightarrow> Inl err
                      | Inr v \<Rightarrow> Inr (h2[target := (h2 ! target)\<lparr>input_data := v\<rparr>]))"

text \<open>The same for \<^verbatim>\<open>adjoint_eval\<close>: input edges, the edge's source, and the buffers swapped.\<close>

definition adjoint_copy ::
  "(nat \<Rightarrow> nat list \<Rightarrow> nat) \<Rightarrow> (int \<rightharpoonup> nat \<times> nat) \<Rightarrow> nat \<Rightarrow> nat \<Rightarrow> 'a FAO list \<Rightarrow> error + 'a FAO list" where
  "adjoint_copy get_elem_length tbl node i h =
     (if \<not> node < length h then Inl InvalidPointer
      else if \<not> i < length (input_edges (h ! node)) then Inl OutOfRange
      else
        let edge_idx = input_edges (h ! node) ! i in
        case tbl edge_idx of
          None \<Rightarrow> Inl InvalidPointer
        | Some edge \<Rightarrow>
            let target = fst edge in
            if \<not> i < length (input_sizes (h ! node)) then Inl OutOfRange
            else
              let len = get_elem_length node (input_sizes (h ! node) ! i);
                  node_offset = offset_at (input_offsets (h ! node)) edge_idx;
                  h1 = h[node := (h ! node)\<lparr>input_offsets := offset_touch (input_offsets (h ! node)) edge_idx\<rparr>]
              in if \<not> target < length h1 then Inl InvalidPointer
                 else
                   let target_offset = offset_at (output_offsets (h1 ! target)) edge_idx;
                       h2 = h1[target := (h1 ! target)\<lparr>output_offsets := offset_touch (output_offsets (h1 ! target)) edge_idx\<rparr>]
                   in case vector_subvec_memcpy (output_data (h2 ! target)) target_offset
                             (input_data (h2 ! node)) node_offset len of
                        Inl err \<Rightarrow> Inl err
                      | Inr v \<Rightarrow> Inr (h2[target := (h2 ! target)\<lparr>output_data := v\<rparr>]))"

text \<open>The copy loop: positions \<open>i\<close>, \<open>i + 1\<close>, ... while \<open>i\<close> is below the number of edges.\<close>

fun copy_loop :: "(nat \<Rightarrow> 'a FAO list \<Rightarrow> error + 'a FAO list) \<Rightarrow> nat list \<Rightarrow> 'a FAO list \<Rightarrow> error + 'a FAO list" where
  "copy_loop step [] h = Inr h"
| "copy_loop step (i # rest) h =
     (case step i h of Inl err \<Rightarrow> Inl err | Inr h' \<Rightarrow> copy_loop step rest h')"

text \<open>
  The visitors of \<^verbatim>\<open>forward_eval\<close> and \<^verbatim>\<open>adjoint_eval\<close>. The node's kernel
  (\<^verbatim>\<open>node->forward_eval()\<close>, \<^verbatim>\<open>node->adjoint_eval()\<close>) is a virtual method of
  \<^verbatim>\<open>FAO.hpp\<close> and a parameter here: it gets the node pointer and the node, and returns
  the node it leaves behind.
\<close>

definition forward_node_eval ::
  "(nat \<Rightarrow> 'a FAO \<Rightarrow> 'a FAO) \<Rightarrow> (nat \<Rightarrow> nat list \<Rightarrow> nat) \<Rightarrow> (int \<rightharpoonup> nat \<times> nat) \<Rightarrow>
   nat \<Rightarrow> 'a FAO list \<Rightarrow> error + 'a FAO list" where
  "forward_node_eval node_kernel get_elem_length tbl node h =
     (if \<not> node < length h then Inl InvalidPointer
      else
        let h1 = h[node := node_kernel node (h ! node)]
        in copy_loop (forward_copy get_elem_length tbl node)
             [0 ..< length (output_edges (h1 ! node))] h1)"

definition adjoint_node_eval ::
  "(nat \<Rightarrow> 'a FAO \<Rightarrow> 'a FAO) \<Rightarrow> (nat \<Rightarrow> nat list \<Rightarrow> nat) \<Rightarrow> (int \<rightharpoonup> nat \<times> nat) \<Rightarrow>
   nat \<Rightarrow> 'a FAO list \<Rightarrow> error + 'a FAO list" where
  "adjoint_node_eval node_kernel get_elem_length tbl node h =
     (if \<not> node < length h then Inl InvalidPointer
      else
        let h1 = h[node := node_kernel node (h ! node)]
        in copy_loop (adjoint_copy get_elem_length tbl node)
             [0 ..< length (input_edges (h1 ! node))] h1)"

text \<open>
  \<^verbatim>\<open>forward_eval\<close> and \<^verbatim>\<open>adjoint_eval\<close>. The two readings of the timer are
  parameters \<open>t0\<close> and \<open>t1\<close>.
\<close>

definition forward_eval ::
  "(nat \<Rightarrow> 'a FAO \<Rightarrow> 'a FAO) \<Rightarrow> (nat \<Rightarrow> nat list \<Rightarrow> nat) \<Rightarrow> real \<Rightarrow> real \<Rightarrow> 'a state \<Rightarrow> (error + 'a state) option" where
  "forward_eval node_kernel get_elem_length t0 t1 s =
     (case traverse_graph (forward_node_eval node_kernel get_elem_length (edges (snd s))) True s of
        None \<Rightarrow> None
      | Some (Inl err) \<Rightarrow> Some (Inl err)
      | Some (Inr (h', g')) \<Rightarrow>
          if forward_evals g' = 2147483647 then Some (Inl SignedOverflow)
          else Some (Inr (h', g'\<lparr>forward_evals := forward_evals g' + 1,
                                 total_forward_eval_time := total_forward_eval_time g' + (t1 - t0)\<rparr>)))"

definition adjoint_eval ::
  "(nat \<Rightarrow> 'a FAO \<Rightarrow> 'a FAO) \<Rightarrow> (nat \<Rightarrow> nat list \<Rightarrow> nat) \<Rightarrow> real \<Rightarrow> real \<Rightarrow> 'a state \<Rightarrow> (error + 'a state) option" where
  "adjoint_eval node_kernel get_elem_length t0 t1 s =
     (case traverse_graph (adjoint_node_eval node_kernel get_elem_length (edges (snd s))) False s of
        None \<Rightarrow> None
      | Some (Inl err) \<Rightarrow> Some (Inl err)
      | Some (Inr (h', g')) \<Rightarrow>
          if adjoint_evals g' = 2147483647 then Some (Inl SignedOverflow)
          else Some (Inr (h', g'\<lparr>adjoint_evals := adjoint_evals g' + 1,
                                 total_adjoint_eval_time := total_adjoint_eval_time g' + (t1 - t0)\<rparr>)))"

section \<open>Construction and destruction\<close>

text \<open>
  The constructor stores its arguments, starts with an empty queue, an empty counter map
  and zeroed statistics, and runs the allocation pass. \<^verbatim>\<open>alloc_data\<close>,
  \<^verbatim>\<open>init_offset_maps\<close> and \<^verbatim>\<open>free_data\<close> are methods of \<^verbatim>\<open>FAO.hpp\<close> and
  parameters here.
\<close>

definition node_method :: "('a FAO \<Rightarrow> 'a FAO) \<Rightarrow> nat \<Rightarrow> 'a FAO list \<Rightarrow> error + 'a FAO list" where
  "node_method m node h = (if node < length h then Inr (h[node := m (h ! node)]) else Inl InvalidPointer)"

definition new_FAO_DAG ::
  "('a FAO \<Rightarrow> 'a FAO) \<Rightarrow> ('a FAO \<Rightarrow> 'a FAO) \<Rightarrow> nat \<Rightarrow> nat \<Rightarrow> (int \<rightharpoonup> nat \<times> nat) \<Rightarrow> 'a FAO list \<Rightarrow> (error + 'a state) option" where
  "new_FAO_DAG alloc_data init_offset_maps start_node' end_node' edges' h =
     traverse_graph (node_method (\<lambda>node. init_offset_maps (alloc_data node))) True
       (h, \<lparr>start_node = start_node', end_node = end_node', edges = edges',
            ready_queue = [], eval_map = Map.empty,
            forward_evals = 0, adjoint_evals = 0,
            total_forward_eval_time = 0, total_adjoint_eval_time = 0\<rparr>)"

text \<open>The destructor's deallocation pass (the two lines it prints before are not part of the state).\<close>

definition delete_FAO_DAG :: "('a FAO \<Rightarrow> 'a FAO) \<Rightarrow> 'a state \<Rightarrow> (error + 'a state) option" where
  "delete_FAO_DAG free_data s = traverse_graph (node_method free_data) True s"

section \<open>The engine as the host uses it\<close>

text \<open>
  After construction the host calls the four public operations in any order. A call
  that aborts ends the run; \<^verbatim>\<open>copy_output\<close> leaves the engine as it is.
\<close>

datatype 'a engine_call =
    ForwardEval real real
  | AdjointEval real real
  | CopyInput "'a list" bool
  | CopyOutput "'a list" bool

fun run_calls ::
  "(nat \<Rightarrow> 'a FAO \<Rightarrow> 'a FAO) \<Rightarrow> (nat \<Rightarrow> 'a FAO \<Rightarrow> 'a FAO) \<Rightarrow> (nat \<Rightarrow> nat list \<Rightarrow> nat) \<Rightarrow>
   'a engine_call list \<Rightarrow> 'a state \<Rightarrow> (error + 'a state) option" where
  "run_calls fk ak gel [] s = Some (Inr s)"
| "run_calls fk ak gel (ForwardEval t0 t1 # rest) s =
     (case forward_eval fk gel t0 t1 s of
        None \<Rightarrow> None
      | Some (Inl err) \<Rightarrow> Some (Inl err)
      | Some (Inr s') \<Rightarrow> run_calls fk ak gel rest s')"
| "run_calls fk ak gel (AdjointEval t0 t1 # rest) s =
     (case adjoint_eval ak gel t0 t1 s of
        None \<Rightarrow> None
      | Some (Inl err) \<Rightarrow> Some (Inl err)
      | Some (Inr s') \<Rightarrow> run_calls fk ak gel rest s')"
| "run_calls fk ak gel (CopyInput arr forward # rest) s =
     (case copy_input arr forward s of
        Inl err \<Rightarrow> Some (Inl err)
      | Inr s' \<Rightarrow> run_calls fk ak gel rest s')"
| "run_calls fk ak gel (CopyOutput arr forward # rest) s =
     (case copy_output arr forward s of
        Inl err \<Rightarrow> Some (Inl err)
      | Inr arr' \<Rightarrow> run_calls fk ak gel rest s)"

section \<open>A sample graph\<close>

text \<open>
  A diamond: node 0 feeds nodes 1 and 2 over the edges 10 and 11, and both feed node 3
  over the edges 12 and 13. Every edge carries one scalar. Node 0 duplicates its input,
  node 1 negates, node 2 doubles, node 3 adds. The adjoint kernels are the transposes.
\<close>

definition sample_heap :: "int FAO list" where
  "sample_heap =
     [\<lparr>input_data = [5], output_data = [0, 0], input_edges = [], output_edges = [10, 11],
       input_sizes = [[1]], output_sizes = [[1], [1]],
       input_offsets = Map.empty, output_offsets = [10 \<mapsto> 0, 11 \<mapsto> 1]\<rparr>,
      \<lparr>input_data = [0], output_data = [0], input_edges = [10], output_edges = [12],
       input_sizes = [[1]], output_sizes = [[1]],
       input_offsets = [10 \<mapsto> 0], output_offsets = [12 \<mapsto> 0]\<rparr>,
      \<lparr>input_data = [0], output_data = [0], input_edges = [11], output_edges = [13],
       input_sizes = [[1]], output_sizes = [[1]],
       input_offsets = [11 \<mapsto> 0], output_offsets = [13 \<mapsto> 0]\<rparr>,
      \<lparr>input_data = [0, 0], output_data = [0], input_edges = [12, 13], output_edges = [],
       input_sizes = [[1], [1]], output_sizes = [[1]],
       input_offsets = [12 \<mapsto> 0, 13 \<mapsto> 1], output_offsets = Map.empty\<rparr>]"

definition sample_edges :: "int \<rightharpoonup> nat \<times> nat" where
  "sample_edges = [10 \<mapsto> (0, 1), 11 \<mapsto> (0, 2), 12 \<mapsto> (1, 3), 13 \<mapsto> (2, 3)]"

definition sample_dag :: FAO_DAG where
  "sample_dag = \<lparr>start_node = 0, end_node = 3, edges = sample_edges,
                  ready_queue = [], eval_map = Map.empty,
                  forward_evals = 0, adjoint_evals = 0,
                  total_forward_eval_time = 0, total_adjoint_eval_time = 0\<rparr>"

definition sample_forward_kernel :: "nat \<Rightarrow> int FAO \<Rightarrow> int FAO" where
  "sample_forward_kernel n f =
     f\<lparr>output_data :=
         (if n = 0 then [input_data f ! 0, input_data f ! 0]
          else if n = 1 then [- (input_data f ! 0)]
          else if n = 2 then [2 * (input_data f ! 0)]
          else [input_data f ! 0 + input_data f ! 1])\<rparr>"

definition sample_adjoint_kernel :: "nat \<Rightarrow> int FAO \<Rightarrow> int FAO" where
  "sample_adjoint_kernel n f =
     f\<lparr>input_data :=
         (if n = 0 then [output_data f ! 0 + output_data f ! 1]
          else if n = 1 then [- (output_data f ! 0)]
          else if n = 2 then [2 * (output_data f ! 0)]
          else [output_data f ! 0, output_data f ! 0])\<rparr>"

definition sample_elem_length :: "nat \<Rightarrow> nat list \<Rightarrow> nat" where
  "sample_elem_length n shape = prod_list shape"


text \<open>
  Two variants in which the two ends of edge 12 declare different element counts: node 1
  declares two elements for its output edge, or node 3 declares two elements for its
  input edge, and the buffers are long enough for the copy.
\<close>

definition oversized_forward_heap :: "int FAO list" where
  "oversized_forward_heap =
     sample_heap[1 := (sample_heap ! 1)\<lparr>output_data := [7, 8], output_sizes := [[2]]\<rparr>]"

definition oversized_adjoint_heap :: "int FAO list" where
  "oversized_adjoint_heap =
     sample_heap[1 := (sample_heap ! 1)\<lparr>output_data := [0, 0]\<rparr>,
                 3 := (sample_heap ! 3)\<lparr>input_data := [3, 4], input_sizes := [[2], [1]]\<rparr>]"

definition child_edges :: "bool \<Rightarrow> 'a FAO \<Rightarrow> int list" where
  "child_edges forward f = (if forward then output_edges f else input_edges f)"

definition parent_edges :: "bool \<Rightarrow> 'a FAO \<Rightarrow> int list" where
  "parent_edges forward f = (if forward then input_edges f else output_edges f)"

definition far_end :: "bool \<Rightarrow> nat \<times> nat \<Rightarrow> nat" where
  "far_end forward edge = (if forward then snd edge else fst edge)"

definition near_end :: "bool \<Rightarrow> nat \<times> nat \<Rightarrow> nat" where
  "near_end forward edge = (if forward then fst edge else snd edge)"

definition consistent :: "'a FAO list \<Rightarrow> (int \<rightharpoonup> nat \<times> nat) \<Rightarrow> bool" where
  "consistent h tbl \<longleftrightarrow>
     (\<forall>n<length h.
        distinct (input_edges (h ! n)) \<and> distinct (output_edges (h ! n)) \<and>
        (\<forall>e\<in>set (output_edges (h ! n)).
           case tbl e of None \<Rightarrow> False
           | Some edge \<Rightarrow> fst edge = n \<and> snd edge < length h \<and> e \<in> set (input_edges (h ! snd edge))) \<and>
        (\<forall>e\<in>set (input_edges (h ! n)).
           case tbl e of None \<Rightarrow> False
           | Some edge \<Rightarrow> snd edge = n \<and> fst edge < length h \<and> e \<in> set (output_edges (h ! fst edge))))"

definition dag_rel :: "'a FAO list \<Rightarrow> (int \<rightharpoonup> nat \<times> nat) \<Rightarrow> (nat \<times> nat) set" where
  "dag_rel h tbl = {(s, d). s < length h \<and> (\<exists>e\<in>set (output_edges (h ! s)). tbl e = Some (s, d))}"

definition step_rel :: "bool \<Rightarrow> 'a FAO list \<Rightarrow> (int \<rightharpoonup> nat \<times> nat) \<Rightarrow> (nat \<times> nat) set" where
  "step_rel forward h tbl = (if forward then dag_rel h tbl else (dag_rel h tbl)\<inverse>)"

definition reachable :: "bool \<Rightarrow> 'a FAO list \<Rightarrow> (int \<rightharpoonup> nat \<times> nat) \<Rightarrow> nat \<Rightarrow> nat set" where
  "reachable forward h tbl seed = (step_rel forward h tbl)\<^sup>* `` {seed}"

definition producers_reachable :: "bool \<Rightarrow> 'a FAO list \<Rightarrow> (int \<rightharpoonup> nat \<times> nat) \<Rightarrow> nat \<Rightarrow> bool" where
  "producers_reachable forward h tbl seed \<longleftrightarrow>
     (\<forall>n\<in>reachable forward h tbl seed. \<forall>p. (p, n) \<in> step_rel forward h tbl \<longrightarrow> p \<in> reachable forward h tbl seed)"

definition same_topology :: "'a FAO list \<Rightarrow> 'a FAO list \<Rightarrow> bool" where
  "same_topology h h' \<longleftrightarrow> map input_edges h' = map input_edges h \<and> map output_edges h' = map output_edges h"

definition preserves_topology :: "(nat \<Rightarrow> 'a FAO list \<Rightarrow> error + 'a FAO list) \<Rightarrow> bool" where
  "preserves_topology node_fn \<longleftrightarrow> (\<forall>n h h'. node_fn n h = Inr h' \<longrightarrow> same_topology h h')"

fun visit_all :: "(nat \<Rightarrow> 'a FAO list \<Rightarrow> error + 'a FAO list) \<Rightarrow> nat list \<Rightarrow> 'a FAO list \<Rightarrow> error + 'a FAO list" where
  "visit_all node_fn [] h = Inr h"
| "visit_all node_fn (n # rest) h =
     (case node_fn n h of Inl err \<Rightarrow> Inl err | Inr h' \<Rightarrow> visit_all node_fn rest h')"

definition producers_first :: "bool \<Rightarrow> 'a FAO list \<Rightarrow> (int \<rightharpoonup> nat \<times> nat) \<Rightarrow> nat \<Rightarrow> nat list \<Rightarrow> bool" where
  "producers_first forward h tbl seed order \<longleftrightarrow>
     (\<forall>k<length order. order ! k \<noteq> seed \<longrightarrow>
        (\<forall>p. (p, order ! k) \<in> step_rel forward h tbl \<longrightarrow> p \<in> set (take k order)))"

definition traversal_inv ::
  "bool \<Rightarrow> 'a FAO list \<Rightarrow> (int \<rightharpoonup> nat \<times> nat) \<Rightarrow> nat \<Rightarrow> nat list \<Rightarrow> int set \<Rightarrow> FAO_DAG \<Rightarrow> bool" where
  "traversal_inv forward h tbl seed vis A g \<longleftrightarrow>
     edges g = tbl \<and>
     distinct (vis @ ready_queue g) \<and>
     set (vis @ ready_queue g) \<subseteq> reachable forward h tbl seed \<and>
     seed \<in> set (vis @ ready_queue g) \<and>
     A \<subseteq> (\<Union>n\<in>set vis. set (child_edges forward (h ! n))) \<and>
     (\<forall>n<length h. eval_map_at (eval_map g) n =
        card (set (parent_edges forward (h ! n)) \<inter> A) + (if n \<in> set vis then 1 else 0)) \<and>
     (\<forall>n<length h. n \<noteq> seed \<longrightarrow>
        (n \<in> set (vis @ ready_queue g) \<longleftrightarrow>
         parent_edges forward (h ! n) \<noteq> [] \<and> set (parent_edges forward (h ! n)) \<subseteq> A)) \<and>
     producers_first forward h tbl seed vis"


fun dequeued ::
  "(nat \<Rightarrow> 'a FAO list \<Rightarrow> error + 'a FAO list) \<Rightarrow> bool \<Rightarrow> nat \<Rightarrow> 'a state \<Rightarrow> nat list" where
  "dequeued node_fn forward 0 s = []"
| "dequeued node_fn forward (Suc k) s =
     (case ready_queue (snd s) of
        [] \<Rightarrow> []
      | curr_node # rest \<Rightarrow>
          curr_node # (case loop_body node_fn forward s of
                         Inl err \<Rightarrow> []
                       | Inr s' \<Rightarrow> dequeued node_fn forward k s'))"


definition keeps_edges :: "(nat \<Rightarrow> 'a FAO \<Rightarrow> 'a FAO) \<Rightarrow> bool" where
  "keeps_edges node_kernel \<longleftrightarrow>
     (\<forall>n f. input_edges (node_kernel n f) = input_edges f \<and> output_edges (node_kernel n f) = output_edges f)"

section \<open>What a copy does\<close>

text \<open>
  \<open>dst'\<close> is \<open>dst\<close> with \<open>len\<close> elements of \<open>src\<close> written over it from
  \<open>dst_offset\<close> on, and nothing else changed.
\<close>

definition slice_copied :: "'a list \<Rightarrow> nat \<Rightarrow> 'a list \<Rightarrow> nat \<Rightarrow> nat \<Rightarrow> 'a list \<Rightarrow> bool" where
  "slice_copied dst dst_offset src src_offset len dst' \<longleftrightarrow>
     length dst' = length dst \<and> dst_offset + len \<le> length dst \<and> src_offset + len \<le> length src \<and>
     (\<forall>j<len. dst' ! (dst_offset + j) = src ! (src_offset + j)) \<and>
     (\<forall>k<length dst. k < dst_offset \<or> dst_offset + len \<le> k \<longrightarrow> dst' ! k = dst ! k)"

text \<open>
  Heap \<open>h'\<close> is heap \<open>h\<close> after the copy for position \<open>i\<close> of the output edges of
  \<open>node\<close>: the element count of the node's declared shape at that position, from the
  node's output buffer at its offset for the edge, into the input buffer of the edge's
  destination at the destination's offset for the edge; no other buffer content changes.
\<close>

definition forward_copied ::
  "(nat \<Rightarrow> nat list \<Rightarrow> nat) \<Rightarrow> (int \<rightharpoonup> nat \<times> nat) \<Rightarrow> nat \<Rightarrow> nat \<Rightarrow> 'a FAO list \<Rightarrow> 'a FAO list \<Rightarrow> bool" where
  "forward_copied get_elem_length tbl node i h h' \<longleftrightarrow>
     (case tbl (output_edges (h ! node) ! i) of
        None \<Rightarrow> False
      | Some edge \<Rightarrow>
          snd edge < length h \<and> length h' = length h \<and>
          slice_copied (input_data (h ! snd edge))
            (offset_at (input_offsets (h ! snd edge)) (output_edges (h ! node) ! i))
            (output_data (h ! node))
            (offset_at (output_offsets (h ! node)) (output_edges (h ! node) ! i))
            (get_elem_length node (output_sizes (h ! node) ! i))
            (input_data (h' ! snd edge)) \<and>
          (\<forall>n<length h. output_data (h' ! n) = output_data (h ! n) \<and>
             (n \<noteq> snd edge \<longrightarrow> input_data (h' ! n) = input_data (h ! n))))"

text \<open>The same for the adjoint pass: input edges, the edge's source, and its output buffer.\<close>

definition adjoint_copied ::
  "(nat \<Rightarrow> nat list \<Rightarrow> nat) \<Rightarrow> (int \<rightharpoonup> nat \<times> nat) \<Rightarrow> nat \<Rightarrow> nat \<Rightarrow> 'a FAO list \<Rightarrow> 'a FAO list \<Rightarrow> bool" where
  "adjoint_copied get_elem_length tbl node i h h' \<longleftrightarrow>
     (case tbl (input_edges (h ! node) ! i) of
        None \<Rightarrow> False
      | Some edge \<Rightarrow>
          fst edge < length h \<and> length h' = length h \<and>
          slice_copied (output_data (h ! fst edge))
            (offset_at (output_offsets (h ! fst edge)) (input_edges (h ! node) ! i))
            (input_data (h ! node))
            (offset_at (input_offsets (h ! node)) (input_edges (h ! node) ! i))
            (get_elem_length node (input_sizes (h ! node) ! i))
            (output_data (h' ! fst edge)) \<and>
          (\<forall>n<length h. input_data (h' ! n) = input_data (h ! n) \<and>
             (n \<noteq> fst edge \<longrightarrow> output_data (h' ! n) = output_data (h ! n))))"

text \<open>
  Heap \<open>h'\<close> has the nodes of \<open>h\<close>, each with the same edge lists and the same declared
  shapes on both sides, and offset maps that read the same at every edge id: whatever the
  copy loop looks up in a node besides buffer content is the same in both.
\<close>

definition same_shape :: "'a FAO list \<Rightarrow> 'a FAO list \<Rightarrow> bool" where
  "same_shape h h' \<longleftrightarrow>
     length h' = length h \<and>
     (\<forall>n<length h.
        input_edges (h' ! n) = input_edges (h ! n) \<and> output_edges (h' ! n) = output_edges (h ! n) \<and>
        input_sizes (h' ! n) = input_sizes (h ! n) \<and> output_sizes (h' ! n) = output_sizes (h ! n) \<and>
        (\<forall>e. offset_at (input_offsets (h' ! n)) e = offset_at (input_offsets (h ! n)) e) \<and>
        (\<forall>e. offset_at (output_offsets (h' ! n)) e = offset_at (output_offsets (h ! n)) e))"

section \<open>Stateless kernels and two small graphs\<close>

text \<open>
  A forward kernel is stateless when it writes a function of the node's input buffer
  into the node's output buffer and touches nothing else.
\<close>

definition stateless :: "(nat \<Rightarrow> 'a FAO \<Rightarrow> 'a FAO) \<Rightarrow> (nat \<Rightarrow> 'a list \<Rightarrow> 'a list) \<Rightarrow> bool" where
  "stateless node_kernel K \<longleftrightarrow> (\<forall>n f. node_kernel n f = f\<lparr>output_data := K n (input_data f)\<rparr>)"


text \<open>
  The chain \<open>a \<rightarrow> b \<rightarrow> c\<close>: \<open>a\<close> is the start node and \<open>c\<close> the end node,
  the edges \<open>e1\<close> and \<open>e2\<close> are the only ones, each edge fills the whole input buffer
  of its destination from the whole output buffer of its source, and the kernels of
  \<open>a\<close> and \<open>b\<close> produce as many scalars as the declared shape of their output edge.
\<close>

definition linear_chain ::
  "'a FAO list \<Rightarrow> FAO_DAG \<Rightarrow> (nat \<Rightarrow> nat list \<Rightarrow> nat) \<Rightarrow> (nat \<Rightarrow> 'a list \<Rightarrow> 'a list) \<Rightarrow>
   nat \<Rightarrow> nat \<Rightarrow> nat \<Rightarrow> int \<Rightarrow> int \<Rightarrow> bool" where
  "linear_chain h g gel K a b c e1 e2 \<longleftrightarrow>
     a < length h \<and> b < length h \<and> c < length h \<and> a \<noteq> b \<and> b \<noteq> c \<and> a \<noteq> c \<and>
     start_node g = a \<and> end_node g = c \<and>
     input_edges (h ! a) = [] \<and> output_edges (h ! a) = [e1] \<and>
     input_edges (h ! b) = [e1] \<and> output_edges (h ! b) = [e2] \<and>
     input_edges (h ! c) = [e2] \<and> output_edges (h ! c) = [] \<and>
     edges g e1 = Some (a, b) \<and> edges g e2 = Some (b, c) \<and>
     output_sizes (h ! a) \<noteq> [] \<and> length (K a (input_data (h ! a))) = gel a (output_sizes (h ! a) ! 0) \<and>
     length (input_data (h ! b)) = gel a (output_sizes (h ! a) ! 0) \<and>
     offset_at (output_offsets (h ! a)) e1 = 0 \<and> offset_at (input_offsets (h ! b)) e1 = 0 \<and>
     output_sizes (h ! b) \<noteq> [] \<and> length (K b (K a (input_data (h ! a)))) = gel b (output_sizes (h ! b) ! 0) \<and>
     length (input_data (h ! c)) = gel b (output_sizes (h ! b) ! 0) \<and>
     offset_at (output_offsets (h ! b)) e2 = 0 \<and> offset_at (input_offsets (h ! c)) e2 = 0"

definition single_node :: "'a FAO list \<Rightarrow> FAO_DAG \<Rightarrow> nat \<Rightarrow> bool" where
  "single_node h g a \<longleftrightarrow>
     a < length h \<and> start_node g = a \<and> end_node g = a \<and>
     input_edges (h ! a) = [] \<and> output_edges (h ! a) = []"


text \<open>A chain of three nodes (add one, double, reverse) and a graph of one identity node.\<close>

definition chain_heap :: "int FAO list" where
  "chain_heap =
     [\<lparr>input_data = [3, 4], output_data = [0, 0], input_edges = [], output_edges = [20],
       input_sizes = [[2]], output_sizes = [[2]],
       input_offsets = Map.empty, output_offsets = [20 \<mapsto> 0]\<rparr>,
      \<lparr>input_data = [0, 0], output_data = [0, 0], input_edges = [20], output_edges = [21],
       input_sizes = [[2]], output_sizes = [[2]],
       input_offsets = [20 \<mapsto> 0], output_offsets = [21 \<mapsto> 0]\<rparr>,
      \<lparr>input_data = [0, 0], output_data = [0, 0], input_edges = [21], output_edges = [],
       input_sizes = [[2]], output_sizes = [[2]],
       input_offsets = [21 \<mapsto> 0], output_offsets = Map.empty\<rparr>]"

definition chain_dag :: FAO_DAG where
  "chain_dag = \<lparr>start_node = 0, end_node = 2, edges = [20 \<mapsto> (0, 1), 21 \<mapsto> (1, 2)],
                 ready_queue = [], eval_map = Map.empty,
                 forward_evals = 0, adjoint_evals = 0,
                 total_forward_eval_time = 0, total_adjoint_eval_time = 0\<rparr>"

definition chain_K :: "nat \<Rightarrow> int list \<Rightarrow> int list" where
  "chain_K n x = (if n = 0 then map (\<lambda>v. v + 1) x else if n = 1 then map (\<lambda>v. 2 * v) x else rev x)"

definition chain_kernel :: "nat \<Rightarrow> int FAO \<Rightarrow> int FAO" where
  "chain_kernel n f = f\<lparr>output_data := chain_K n (input_data f)\<rparr>"

definition identity_kernel :: "nat \<Rightarrow> int FAO \<Rightarrow> int FAO" where
  "identity_kernel n f = f\<lparr>output_data := input_data f\<rparr>"

definition identity_heap :: "int FAO list" where
  "identity_heap =
     [\<lparr>input_data = [3, 4], output_data = [0, 0], input_edges = [], output_edges = [],
       input_sizes = [[2]], output_sizes = [[2]],
       input_offsets = Map.empty, output_offsets = Map.empty\<rparr>]"

definition identity_dag :: FAO_DAG where
  "identity_dag = \<lparr>start_node = 0, end_node = 0, edges = Map.empty,
                    ready_queue = [], eval_map = Map.empty,
                    forward_evals = 0, adjoint_evals = 0,
                    total_forward_eval_time = 0, total_adjoint_eval_time = 0\<rparr>"

section \<open>Heaps after a forward pass\<close>

text \<open>
  Two heaps have the same layout when they have the same nodes with the same edge lists,
  the same declared output sizes, and offset maps that read the same at every edge id.
\<close>

definition same_layout :: "'a FAO list \<Rightarrow> 'a FAO list \<Rightarrow> bool" where
  "same_layout h h' \<longleftrightarrow>
     length h' = length h \<and>
     (\<forall>n<length h.
        input_edges (h' ! n) = input_edges (h ! n) \<and> output_edges (h' ! n) = output_edges (h ! n) \<and>
        output_sizes (h' ! n) = output_sizes (h ! n) \<and>
        (\<forall>e. offset_at (input_offsets (h' ! n)) e = offset_at (input_offsets (h ! n)) e) \<and>
        (\<forall>e. offset_at (output_offsets (h' ! n)) e = offset_at (output_offsets (h ! n)) e))"

text \<open>The \<open>len\<close> elements of \<open>dst\<close> from \<open>dst_offset\<close> on are those of \<open>src\<close> from \<open>src_offset\<close> on.\<close>

definition slice_present :: "'a list \<Rightarrow> nat \<Rightarrow> 'a list \<Rightarrow> nat \<Rightarrow> nat \<Rightarrow> bool" where
  "slice_present dst dst_offset src src_offset len \<longleftrightarrow>
     dst_offset + len \<le> length dst \<and> src_offset + len \<le> length src \<and>
     (\<forall>j<len. dst ! (dst_offset + j) = src ! (src_offset + j))"

text \<open>
  The copy for position \<open>i\<close> of the output edges of \<open>v\<close> is in place: both offsets are
  recorded, and the destination's input buffer holds the node's output at the edge's range.
\<close>

definition edge_settled ::
  "(nat \<Rightarrow> nat list \<Rightarrow> nat) \<Rightarrow> (int \<rightharpoonup> nat \<times> nat) \<Rightarrow> 'a FAO list \<Rightarrow> nat \<Rightarrow> nat \<Rightarrow> bool" where
  "edge_settled get_elem_length tbl h v i \<longleftrightarrow>
     (case tbl (output_edges (h ! v) ! i) of
        None \<Rightarrow> False
      | Some edge \<Rightarrow>
          snd edge < length h \<and> i < length (output_sizes (h ! v)) \<and>
          output_offsets (h ! v) (output_edges (h ! v) ! i) \<noteq> None \<and>
          input_offsets (h ! snd edge) (output_edges (h ! v) ! i) \<noteq> None \<and>
          slice_present (input_data (h ! snd edge))
            (offset_at (input_offsets (h ! snd edge)) (output_edges (h ! v) ! i))
            (output_data (h ! v))
            (offset_at (output_offsets (h ! v)) (output_edges (h ! v) ! i))
            (get_elem_length v (output_sizes (h ! v) ! i)))"

text \<open>Node \<open>v\<close> has been evaluated and nothing it read or wrote has changed since.\<close>

definition settled ::
  "(nat \<Rightarrow> nat list \<Rightarrow> nat) \<Rightarrow> (int \<rightharpoonup> nat \<times> nat) \<Rightarrow> (nat \<Rightarrow> 'a list \<Rightarrow> 'a list) \<Rightarrow>
   'a FAO list \<Rightarrow> nat \<Rightarrow> bool" where
  "settled get_elem_length tbl K h v \<longleftrightarrow>
     v < length h \<and> output_data (h ! v) = K v (input_data (h ! v)) \<and>
     (\<forall>i<length (output_edges (h ! v)). edge_settled get_elem_length tbl h v i)"

text \<open>
  Two different edges into the same node have disjoint ranges in its input buffer, the
  length of a range being the element count its sender declares.
\<close>

definition disjoint_copies ::
  "(nat \<Rightarrow> nat list \<Rightarrow> nat) \<Rightarrow> (int \<rightharpoonup> nat \<times> nat) \<Rightarrow> 'a FAO list \<Rightarrow> bool" where
  "disjoint_copies get_elem_length tbl h \<longleftrightarrow>
     (\<forall>v<length h. \<forall>i<length (output_edges (h ! v)).
      \<forall>v'<length h. \<forall>i'<length (output_edges (h ! v')).
        (v, i) \<noteq> (v', i') \<longrightarrow>
        (case (tbl (output_edges (h ! v) ! i), tbl (output_edges (h ! v') ! i')) of
           (Some edge, Some edge') \<Rightarrow>
             snd edge = snd edge' \<longrightarrow>
               offset_at (input_offsets (h ! snd edge)) (output_edges (h ! v) ! i) +
                 get_elem_length v (output_sizes (h ! v) ! i)
                 \<le> offset_at (input_offsets (h ! snd edge)) (output_edges (h ! v') ! i') \<or>
               offset_at (input_offsets (h ! snd edge)) (output_edges (h ! v') ! i') +
                 get_elem_length v' (output_sizes (h ! v') ! i')
                 \<le> offset_at (input_offsets (h ! snd edge)) (output_edges (h ! v) ! i)
         | _ \<Rightarrow> True))"

text \<open>
  The kernel of each node of \<open>h\<close> keeps the length of both buffers of a node whose
  buffers have the lengths they have in \<open>h\<close>.
\<close>

definition keeps_sizes :: "(nat \<Rightarrow> 'a FAO \<Rightarrow> 'a FAO) \<Rightarrow> 'a FAO list \<Rightarrow> bool" where
  "keeps_sizes node_kernel h \<longleftrightarrow>
     (\<forall>n<length h. \<forall>f.
        length (input_data f) = length (input_data (h ! n)) \<and>
        length (output_data f) = length (output_data (h ! n)) \<longrightarrow>
        length (input_data (node_kernel n f)) = length (input_data f) \<and>
        length (output_data (node_kernel n f)) = length (output_data f))"

text \<open>Heap \<open>h'\<close> has the nodes of \<open>h\<close>, each with buffers of the same lengths.\<close>

definition same_sizes :: "'a FAO list \<Rightarrow> 'a FAO list \<Rightarrow> bool" where
  "same_sizes h h' \<longleftrightarrow>
     length h' = length h \<and>
     (\<forall>n<length h.
        length (input_data (h' ! n)) = length (input_data (h ! n)) \<and>
        length (output_data (h' ! n)) = length (output_data (h ! n)))"

text \<open>The kernels of the sample graph as functions of the input buffer.\<close>

definition sample_K :: "nat \<Rightarrow> int list \<Rightarrow> int list" where
  "sample_K n x =
     (if n = 0 then [x ! 0, x ! 0]
      else if n = 1 then [- (x ! 0)]
      else if n = 2 then [2 * (x ! 0)]
      else [x ! 0 + x ! 1])"

section \<open>A visitor that keeps a log, and a graph with two sources\<close>

text \<open>
  A visitor that appends the number of the node it is called on to the input buffer of
  node 0, so that the buffer lists the calls of the visitor in the order they were made.
\<close>

definition log_visit :: "nat \<Rightarrow> int FAO list \<Rightarrow> error + int FAO list" where
  "log_visit n h =
     (if n < length h then Inr (h[0 := (h ! 0)\<lparr>input_data := input_data (h ! 0) @ [int n]\<rparr>])
      else Inl InvalidPointer)"

text \<open>
  Nodes 0 and 1 each have one edge into node 2 (edge 20 from node 0, edge 21 from node 1);
  node 0 is the start node and node 2 the end node.
\<close>

definition join_heap :: "int FAO list" where
  "join_heap =
     [\<lparr>input_data = [], output_data = [0], input_edges = [], output_edges = [20],
       input_sizes = [[1]], output_sizes = [[1]],
       input_offsets = Map.empty, output_offsets = [20 \<mapsto> 0]\<rparr>,
      \<lparr>input_data = [0], output_data = [0], input_edges = [], output_edges = [21],
       input_sizes = [[1]], output_sizes = [[1]],
       input_offsets = Map.empty, output_offsets = [21 \<mapsto> 0]\<rparr>,
      \<lparr>input_data = [0, 0], output_data = [0], input_edges = [20, 21], output_edges = [],
       input_sizes = [[1], [1]], output_sizes = [[1]],
       input_offsets = [20 \<mapsto> 0, 21 \<mapsto> 1], output_offsets = Map.empty\<rparr>]"

definition join_edges :: "int \<rightharpoonup> nat \<times> nat" where
  "join_edges = [20 \<mapsto> (0, 2), 21 \<mapsto> (1, 2)]"

definition join_dag :: FAO_DAG where
  "join_dag = \<lparr>start_node = 0, end_node = 2, edges = join_edges,
                ready_queue = [], eval_map = Map.empty,
                forward_evals = 0, adjoint_evals = 0,
                total_forward_eval_time = 0, total_adjoint_eval_time = 0\<rparr>"

section \<open>Evaluating the definitions\<close>

lemmas engine_defs =
  traverse_graph_def loop_body_def visit_edge_def eval_map_incr_def eval_map_at_def
  forward_eval_def adjoint_eval_def forward_node_eval_def adjoint_node_eval_def
  forward_copy_def adjoint_copy_def vector_subvec_memcpy_def offset_at_def offset_touch_def
  new_FAO_DAG_def delete_FAO_DAG_def node_method_def
  copy_input_def copy_output_def get_forward_input_def get_forward_output_def
  get_adjoint_input_def get_adjoint_output_def vector_memcpy_in_def vector_memcpy_out_def

lemmas sample_defs =
  sample_heap_def sample_dag_def sample_edges_def sample_forward_kernel_def
  sample_adjoint_kernel_def sample_elem_length_def

section \<open>The loop as a whole\<close>

text \<open>
  Whatever holds before the loop and is kept by every iteration holds when the loop
  ends, and the queue is empty then.
\<close>

lemma traverse_loop_invariant:
  assumes run: "traverse_loop node_fn forward s = Some r"
    and init: "I s"
    and step: "\<And>s s'. I s \<Longrightarrow> ready_queue (snd s) \<noteq> [] \<Longrightarrow> loop_body node_fn forward s = Inr s' \<Longrightarrow> I s'"
  shows "case r of Inl err \<Rightarrow> True | Inr s' \<Rightarrow> I s' \<and> ready_queue (snd s') = []"
proof -
  have "node_fn = node_fn \<longrightarrow> forward = forward \<longrightarrow> I s \<longrightarrow>
          (case r of Inl err \<Rightarrow> True | Inr s' \<Rightarrow> I s' \<and> ready_queue (snd s') = [])"
  proof (rule traverse_loop.raw_induct
      [where P = "\<lambda>nf fw s r. nf = node_fn \<longrightarrow> fw = forward \<longrightarrow> I s \<longrightarrow>
          (case r of Inl err \<Rightarrow> True | Inr s' \<Rightarrow> I s' \<and> ready_queue (snd s') = [])", OF _ run])
    fix loop :: "(nat \<Rightarrow> 'a FAO list \<Rightarrow> error + 'a FAO list) \<Rightarrow> bool \<Rightarrow> 'a state \<Rightarrow> (error + 'a state) option"
    fix nf fw s r
    assume IH: "\<And>nf fw s r. loop nf fw s = Some r \<Longrightarrow> nf = node_fn \<longrightarrow> fw = forward \<longrightarrow> I s \<longrightarrow>
          (case r of Inl err \<Rightarrow> True | Inr s' \<Rightarrow> I s' \<and> ready_queue (snd s') = [])"
      and eq: "(if ready_queue (snd s) = [] then Some (Inr s)
                else case loop_body nf fw s of Inl err \<Rightarrow> Some (Inl err) | Inr s' \<Rightarrow> loop nf fw s') = Some r"
    show "nf = node_fn \<longrightarrow> fw = forward \<longrightarrow> I s \<longrightarrow>
          (case r of Inl err \<Rightarrow> True | Inr s' \<Rightarrow> I s' \<and> ready_queue (snd s') = [])"
    proof (intro impI)
      assume nf: "nf = node_fn" and fw: "fw = forward" and I: "I s"
      show "case r of Inl err \<Rightarrow> True | Inr s' \<Rightarrow> I s' \<and> ready_queue (snd s') = []"
      proof (cases "ready_queue (snd s) = []")
        case True
        with eq I show ?thesis by auto
      next
        case False
        show ?thesis
        proof (cases "loop_body nf fw s")
          case (Inl err)
          with eq False show ?thesis by auto
        next
          case (Inr s1)
          with eq False have "loop nf fw s1 = Some r" by simp
          moreover have "I s1" using step [OF I False] Inr nf fw by simp
          ultimately show ?thesis using IH nf fw by blast
        qed
      qed
    qed
  qed
  with init show ?thesis by simp
qed

lemma traverse_loop_exit:
  "traverse_loop node_fn forward s = Some (Inr s') \<Longrightarrow> ready_queue (snd s') = []"
  using traverse_loop_invariant [where I = "\<lambda>s. True" and r = "Inr s'"] by simp

lemma traverse_graph_scratch_state:
  assumes "traverse_graph node_fn forward s = Some (Inr (h', g'))"
  shows "eval_map g' = Map.empty \<and> ready_queue g' = []"
proof -
  obtain h g where s: "s = (h, g)" by (cases s)
  from assms s obtain g1 where
    run: "traverse_loop node_fn forward
            (h, g\<lparr>ready_queue := ready_queue g @ [if forward then start_node g else end_node g]\<rparr>) = Some (Inr (h', g1))"
    and g': "g' = g1\<lparr>eval_map := Map.empty\<rparr>"
    by (auto simp: traverse_graph_def Let_def split: option.splits sum.splits)
  from traverse_loop_exit [OF run] g' show ?thesis by simp
qed

lemma forward_eval_scratch_state:
  assumes "forward_eval fk gel t0 t1 s = Some (Inr (h', g'))"
  shows "eval_map g' = Map.empty \<and> ready_queue g' = []"
proof -
  from assms obtain g1 where
    "traverse_graph (forward_node_eval fk gel (edges (snd s))) True s = Some (Inr (h', g1))"
    and "g' = g1\<lparr>forward_evals := forward_evals g1 + 1,
                   total_forward_eval_time := total_forward_eval_time g1 + (t1 - t0)\<rparr>"
    by (auto simp: forward_eval_def split: option.splits sum.splits if_splits)
  then show ?thesis
    using traverse_graph_scratch_state [of _ True s h' g1] by simp
qed

lemma adjoint_eval_scratch_state:
  assumes "adjoint_eval ak gel t0 t1 s = Some (Inr (h', g'))"
  shows "eval_map g' = Map.empty \<and> ready_queue g' = []"
proof -
  from assms obtain g1 where
    "traverse_graph (adjoint_node_eval ak gel (edges (snd s))) False s = Some (Inr (h', g1))"
    and "g' = g1\<lparr>adjoint_evals := adjoint_evals g1 + 1,
                   total_adjoint_eval_time := total_adjoint_eval_time g1 + (t1 - t0)\<rparr>"
    by (auto simp: adjoint_eval_def split: option.splits sum.splits if_splits)
  then show ?thesis
    using traverse_graph_scratch_state [of _ False s h' g1] by simp
qed

lemma copy_input_dag: "copy_input arr forward (h, g) = Inr (h', g') \<Longrightarrow> g' = g"
  by (auto simp: copy_input_def Let_def split: sum.splits if_splits)

lemma run_calls_scratch_state:
  "run_calls fk ak gel calls s = Some (Inr s') \<Longrightarrow>
   eval_map (snd s) = Map.empty \<and> ready_queue (snd s) = [] \<Longrightarrow>
   eval_map (snd s') = Map.empty \<and> ready_queue (snd s') = []"
proof (induction fk ak gel calls s rule: run_calls.induct)
  case (1 fk ak gel s)
  then show ?case by simp
next
  case (2 fk ak gel t0 t1 rest s)
  then show ?case
    by (auto split: option.splits sum.splits dest: forward_eval_scratch_state)
next
  case (3 fk ak gel t0 t1 rest s)
  then show ?case 
    by (auto split: option.splits sum.splits dest: adjoint_eval_scratch_state)
next
  case (4 fk ak gel arr forward rest s)
  then show ?case
    by (cases s) (auto split: sum.splits dest: copy_input_dag)
next
  case (5 fk ak gel arr forward rest s)
  then show ?case by (auto split: sum.splits)
qed

section \<open>Boundary operations\<close>

text \<open>
  C5. \<^verbatim>\<open>copy_input\<close> and \<^verbatim>\<open>copy_output\<close> with an array whose length is not the
  length of the selected boundary buffer fail the assertion: the result is the abort, and
  no heap or array comes back, so nothing is copied, truncated or padded. When
  \<^verbatim>\<open>copy_input\<close> does return, the buffer holds exactly the array.
\<close>

theorem copy_size_mismatch_aborts:
  "(read_buffer h (if forward then get_forward_input g else get_adjoint_input g) = Inr vec \<and>
      length arr \<noteq> length vec \<longrightarrow>
    copy_input arr forward (h, g) = Inl AssertionFailed) \<and>
   (read_buffer h (if forward then get_forward_output g else get_adjoint_output g) = Inr vec \<and>
      length arr \<noteq> length vec \<longrightarrow>
    copy_output arr forward (h, g) = Inl AssertionFailed) \<and>
   (copy_input arr forward (h, g) = Inr (h', g') \<longrightarrow>
    read_buffer h' (if forward then get_forward_input g else get_adjoint_input g) = Inr arr \<and> g' = g)"
  apply (intro conjI impI)
    apply (simp add: copy_input_def Let_def)
   apply (simp add: copy_output_def Let_def)
  apply (cases "if forward then get_forward_input g else get_adjoint_input g")
   apply (auto simp: copy_input_def Let_def vector_memcpy_in_def split: sum.splits if_splits)
  done

theorem copy_size_mismatch_aborts_witness:
  "read_buffer sample_heap (get_forward_input sample_dag) = Inr [5] \<and>
   read_buffer sample_heap (get_adjoint_output sample_dag) = Inr [5] \<and>
   copy_input [1, 2] True (sample_heap, sample_dag) = Inl AssertionFailed \<and>
   copy_output [1, 2] False (sample_heap, sample_dag) = Inl AssertionFailed \<and>
   (\<exists>h'. copy_input [8] True (sample_heap, sample_dag) = Inr (h', sample_dag) \<and>
         read_buffer h' (get_forward_input sample_dag) = Inr [8])"
proof -
  have in_buf: "read_buffer sample_heap (if True then get_forward_input sample_dag else get_adjoint_input sample_dag) = Inr [5]"
    by (simp add: engine_defs sample_defs)
  have out_buf: "read_buffer sample_heap (if False then get_forward_output sample_dag else get_adjoint_output sample_dag) = Inr [5]"
    by (simp add: engine_defs sample_defs)
  have len: "length [1, 2 :: int] \<noteq> length [5 :: int]" by simp
  obtain h' where ok: "copy_input [8] True (sample_heap, sample_dag) = Inr (h', sample_dag)"
    by (simp add: engine_defs sample_defs)
  note thm1 = copy_size_mismatch_aborts [of sample_heap True sample_dag "[5]" "[1, 2]"]
  note thm2 = copy_size_mismatch_aborts [of sample_heap False sample_dag "[5]" "[1, 2]"]
  note thm3 = copy_size_mismatch_aborts [of sample_heap True sample_dag "[5]" "[8]" h' sample_dag]
  from thm1 thm2 thm3 in_buf out_buf len ok show ?thesis by auto
qed

text \<open>
  C6. \<^verbatim>\<open>get_adjoint_input\<close> returns the buffer \<^verbatim>\<open>get_forward_output\<close> returns,
  the output buffer of the end node, and \<^verbatim>\<open>get_adjoint_output\<close> returns the buffer
  \<^verbatim>\<open>get_forward_input\<close> returns, the input buffer of the start node.
\<close>

theorem adjoint_forward_role_swap:
  "get_adjoint_input g = get_forward_output g \<and> get_forward_output g = OutputData (end_node g) \<and>
   get_adjoint_output g = get_forward_input g \<and> get_forward_input g = InputData (start_node g) \<and>
   read_buffer h (get_adjoint_input g) = read_buffer h (get_forward_output g) \<and>
   read_buffer h (get_adjoint_output g) = read_buffer h (get_forward_input g)"
  by (simp add: get_adjoint_input_def get_adjoint_output_def get_forward_input_def get_forward_output_def)

section \<open>Scheduler state between traversals\<close>

text \<open>
  C7. Every \<^verbatim>\<open>traverse_graph\<close> that returns leaves the arrival-counter map empty.
  The constructor starts from an empty map, so after construction and after any number
  of public calls the map and the queue are empty: every traversal starts without
  residue of an earlier one, the deallocation pass of the destructor included.
\<close>

theorem readiness_map_reset:
  "(traverse_graph node_fn forward s = Some (Inr s1) \<longrightarrow> eval_map (snd s1) = Map.empty) \<and>
   (new_FAO_DAG alloc_data init_offset_maps start end tbl h = Some (Inr s0) \<longrightarrow>
    run_calls fk ak gel calls s0 = Some (Inr s2) \<longrightarrow>
      eval_map (snd s2) = Map.empty \<and> ready_queue (snd s2) = [] \<and>
      (delete_FAO_DAG free_data s2 = Some (Inr s3) \<longrightarrow> eval_map (snd s3) = Map.empty))"
proof (intro conjI impI)
  assume "traverse_graph node_fn forward s = Some (Inr s1)"
  then show "eval_map (snd s1) = Map.empty"
    using traverse_graph_scratch_state [of node_fn forward s "fst s1" "snd s1"] by simp
next
  assume new: "new_FAO_DAG alloc_data init_offset_maps start end tbl h = Some (Inr s0)"
    and run: "run_calls fk ak gel calls s0 = Some (Inr s2)"
  from new have "eval_map (snd s0) = Map.empty \<and> ready_queue (snd s0) = []"
    unfolding new_FAO_DAG_def
    using traverse_graph_scratch_state [where h' = "fst s0" and g' = "snd s0"] by simp
  with run show s2: "eval_map (snd s2) = Map.empty" "ready_queue (snd s2) = []"
    using run_calls_scratch_state by blast+
  assume "delete_FAO_DAG free_data s2 = Some (Inr s3)"
  then show "eval_map (snd s3) = Map.empty"
    unfolding delete_FAO_DAG_def
    using traverse_graph_scratch_state [where h' = "fst s3" and g' = "snd s3"] by simp
qed

theorem readiness_map_reset_witness:
  "new_FAO_DAG id id 0 3 sample_edges sample_heap = Some (Inr (sample_heap, sample_dag)) \<and>
   (\<exists>s2 s3. run_calls sample_forward_kernel sample_adjoint_kernel sample_elem_length
             [ForwardEval 0 1, AdjointEval 1 2] (sample_heap, sample_dag) = Some (Inr s2) \<and>
          eval_map (snd s2) = Map.empty \<and> ready_queue (snd s2) = [] \<and>
          delete_FAO_DAG id s2 = Some (Inr s3) \<and> eval_map (snd s3) = Map.empty)"
proof -
  have new: "new_FAO_DAG id id 0 3 sample_edges sample_heap = Some (Inr (sample_heap, sample_dag))"
    by (simp add: engine_defs sample_defs traverse_loop.simps)
  have "\<exists>s2 s3. run_calls sample_forward_kernel sample_adjoint_kernel sample_elem_length
             [ForwardEval 0 1, AdjointEval 1 2] (sample_heap, sample_dag) = Some (Inr s2) \<and>
           delete_FAO_DAG id s2 = Some (Inr s3)"
    by (simp add: engine_defs sample_defs traverse_loop.simps)
  then obtain s2 s3 where run: "run_calls sample_forward_kernel sample_adjoint_kernel sample_elem_length
             [ForwardEval 0 1, AdjointEval 1 2] (sample_heap, sample_dag) = Some (Inr s2)"
    and del: "delete_FAO_DAG id s2 = Some (Inr s3)"
    by blast
  have trav: "traverse_graph (node_method id) True (sample_heap, sample_dag) = Some (Inr (sample_heap, sample_dag))"
    by (simp add: engine_defs sample_defs traverse_loop.simps)
  from readiness_map_reset [of "node_method id" True "(sample_heap, sample_dag)" "(sample_heap, sample_dag)"
      id id 0 3 sample_edges sample_heap "(sample_heap, sample_dag)"
      sample_forward_kernel sample_adjoint_kernel sample_elem_length "[ForwardEval 0 1, AdjointEval 1 2]" s2 id s3]
    new run trav del
  have "eval_map (snd s2) = Map.empty \<and> ready_queue (snd s2) = [] \<and> eval_map (snd s3) = Map.empty"
    by simp
  with new run del show ?thesis by blast
qed

subsection \<open>Edge lists and the edge table\<close>

lemma output_edge:
  assumes "consistent h tbl" "n < length h" "e \<in> set (output_edges (h ! n))"
  shows "\<exists>d. tbl e = Some (n, d) \<and> d < length h \<and> e \<in> set (input_edges (h ! d))"
proof -
  from assms have "case tbl e of None \<Rightarrow> False
           | Some edge \<Rightarrow> fst edge = n \<and> snd edge < length h \<and> e \<in> set (input_edges (h ! snd edge))"
    unfolding consistent_def by blast
  then show ?thesis by (cases "tbl e") auto
qed

lemma input_edge:
  assumes "consistent h tbl" "n < length h" "e \<in> set (input_edges (h ! n))"
  shows "\<exists>s. tbl e = Some (s, n) \<and> s < length h \<and> e \<in> set (output_edges (h ! s))"
proof -
  from assms have "case tbl e of None \<Rightarrow> False
           | Some edge \<Rightarrow> snd edge = n \<and> fst edge < length h \<and> e \<in> set (output_edges (h ! fst edge))"
    unfolding consistent_def by blast
  then show ?thesis by (cases "tbl e") auto
qed

lemma child_edge:
  assumes "consistent h tbl" "n < length h" "e \<in> set (child_edges forward (h ! n))"
  shows "\<exists>edge. tbl e = Some edge \<and> near_end forward edge = n \<and> far_end forward edge < length h \<and>
           e \<in> set (parent_edges forward (h ! far_end forward edge))"
proof (cases forward)
  case True
  with assms output_edge [OF assms(1,2), of e] show ?thesis
    by (auto simp: child_edges_def parent_edges_def near_end_def far_end_def)
next
  case False
  with assms input_edge [OF assms(1,2), of e] show ?thesis
    by (auto simp: child_edges_def parent_edges_def near_end_def far_end_def)
qed

lemma parent_edge:
  assumes "consistent h tbl" "n < length h" "e \<in> set (parent_edges forward (h ! n))"
  shows "\<exists>edge. tbl e = Some edge \<and> far_end forward edge = n \<and> near_end forward edge < length h \<and>
           e \<in> set (child_edges forward (h ! near_end forward edge))"
proof (cases forward)
  case True
  with assms input_edge [OF assms(1,2), of e] show ?thesis
    by (auto simp: child_edges_def parent_edges_def near_end_def far_end_def)
next
  case False
  with assms output_edge [OF assms(1,2), of e] show ?thesis
    by (auto simp: child_edges_def parent_edges_def near_end_def far_end_def)
qed

lemma distinct_edge_lists:
  assumes "consistent h tbl" "n < length h"
  shows "distinct (child_edges forward (h ! n))" "distinct (parent_edges forward (h ! n))"
  using assms by (auto simp: consistent_def child_edges_def parent_edges_def)

lemma step_rel_iff:
  assumes "consistent h tbl"
  shows "(n, m) \<in> step_rel forward h tbl \<longleftrightarrow>
         n < length h \<and> (\<exists>e\<in>set (child_edges forward (h ! n)). \<exists>edge. tbl e = Some edge \<and>
            near_end forward edge = n \<and> far_end forward edge = m)"
proof (cases forward)
  case True
  then show ?thesis
    by (auto simp: step_rel_def dag_rel_def child_edges_def near_end_def far_end_def)
next
  case False
  have "(m, n) \<in> dag_rel h tbl \<longleftrightarrow>
        n < length h \<and> (\<exists>e\<in>set (input_edges (h ! n)). \<exists>edge. tbl e = Some edge \<and> snd edge = n \<and> fst edge = m)"
    (is "?L \<longleftrightarrow> ?R")
  proof
    assume ?L
    then obtain e where m: "m < length h" and e: "e \<in> set (output_edges (h ! m))" and t: "tbl e = Some (m, n)"
      by (auto simp: dag_rel_def)
    from output_edge [OF assms m e] t have "n < length h \<and> e \<in> set (input_edges (h ! n))"
      by auto
    with t show ?R by auto
  next
    assume ?R
    then obtain e edge where n: "n < length h" and e: "e \<in> set (input_edges (h ! n))"
      and t: "tbl e = Some edge" "snd edge = n" "fst edge = m" by auto
    have t': "tbl e = Some (m, n)" using t by (cases edge) simp
    from input_edge [OF assms n e] t' have "m < length h \<and> e \<in> set (output_edges (h ! m))"
      by auto
    moreover note t'
    ultimately show ?L by (auto simp: dag_rel_def)
  qed
  with False show ?thesis
    by (simp add: step_rel_def child_edges_def near_end_def far_end_def)
qed

lemma step_rel_valid:
  assumes "consistent h tbl" "(n, m) \<in> step_rel forward h tbl"
  shows "n < length h \<and> m < length h"
proof -
  from assms obtain e edge where n: "n < length h" and e: "e \<in> set (child_edges forward (h ! n))"
    and t: "tbl e = Some edge" "far_end forward edge = m"
    by (auto simp: step_rel_iff)
  from child_edge [OF assms(1) n e] t n show ?thesis by auto
qed

lemma reachable_valid:
  assumes "consistent h tbl" "seed < length h" "n \<in> reachable forward h tbl seed"
  shows "n < length h"
proof -
  from assms(3) have "(seed, n) \<in> (step_rel forward h tbl)\<^sup>*" by (simp add: reachable_def)
  then show ?thesis
    using assms(2) by (induction rule: rtrancl_induct) (auto dest: step_rel_valid [OF assms(1)])
qed

lemma acyclic_step_rel:
  "acyclic (dag_rel h tbl) \<Longrightarrow> acyclic (step_rel forward h tbl)"
  by (simp add: step_rel_def)

lemma finite_step_rel:
  assumes "consistent h tbl"
  shows "finite (step_rel forward h tbl)"
proof (rule finite_subset)
  show "step_rel forward h tbl \<subseteq> {..<length h} \<times> {..<length h}"
    using step_rel_valid [OF assms] by auto
qed simp

subsection \<open>Arrival counters\<close>

lemma eval_map_at_incr:
  "eval_map_at (eval_map_incr m k) n = (if n = k then eval_map_at m k + 1 else eval_map_at m n)"
  by (simp add: eval_map_at_def eval_map_incr_def)

lemma visit_edge_result:
  assumes "edges g e = Some edge" "far_end forward edge < length h"
  shows "visit_edge forward h g e =
           Inr (g\<lparr>eval_map := eval_map_incr (eval_map g) (far_end forward edge),
                  ready_queue :=
                    (if eval_map_at (eval_map g) (far_end forward edge) + 1 =
                        length (parent_edges forward (h ! far_end forward edge))
                     then ready_queue g @ [far_end forward edge] else ready_queue g)\<rparr>)"
  using assms
  by (cases forward)
     (simp_all add: visit_edge_def far_end_def parent_edges_def Let_def eval_map_at_incr)

lemma card_arrived_full:
  assumes "distinct ps"
  shows "card (set ps \<inter> A) = length ps \<longleftrightarrow> set ps \<subseteq> A"
proof
  assume "card (set ps \<inter> A) = length ps"
  with assms have "card (set ps \<inter> A) = card (set ps)" by (simp add: distinct_card)
  then have "set ps \<inter> A = set ps"
    by (intro card_subset_eq) auto
  then show "set ps \<subseteq> A" by blast
next
  assume "set ps \<subseteq> A"
  then have "set ps \<inter> A = set ps" by blast
  with assms show "card (set ps \<inter> A) = length ps" by (simp add: distinct_card)
qed

lemma visit_edge_inv:
  assumes con: "consistent h tbl"
    and acy: "acyclic (step_rel forward h tbl)"
    and seed: "seed < length h"
    and inv: "traversal_inv forward h tbl seed vis A g"
    and c: "c \<in> set vis"
    and e: "e \<in> set (child_edges forward (h ! c))" "e \<notin> A"
  shows "\<exists>g'. visit_edge forward h g e = Inr g' \<and> traversal_inv forward h tbl seed vis (insert e A) g'"
proof -
  let ?R = "step_rel forward h tbl"
  let ?P = "\<lambda>n. set (parent_edges forward (h ! n))"
  from inv have tbl: "edges g = tbl"
    and dist: "distinct (vis @ ready_queue g)"
    and sub: "set (vis @ ready_queue g) \<subseteq> reachable forward h tbl seed"
    and seed_in: "seed \<in> set (vis @ ready_queue g)"
    and A: "A \<subseteq> (\<Union>n\<in>set vis. set (child_edges forward (h ! n)))"
    and cnt: "\<forall>n<length h. eval_map_at (eval_map g) n = card (?P n \<inter> A) + (if n \<in> set vis then 1 else 0)"
    and rdy: "\<forall>n<length h. n \<noteq> seed \<longrightarrow>
        (n \<in> set (vis @ ready_queue g) \<longleftrightarrow> parent_edges forward (h ! n) \<noteq> [] \<and> ?P n \<subseteq> A)"
    and pf: "producers_first forward h tbl seed vis"
    unfolding traversal_inv_def by blast+
  from c sub have c_reach: "c \<in> reachable forward h tbl seed" by auto
  then have c_valid: "c < length h" by (rule reachable_valid [OF con seed])
  from child_edge [OF con c_valid e(1)] obtain edge where
    edge: "tbl e = Some edge" "near_end forward edge = c" "far_end forward edge < length h"
      "e \<in> ?P (far_end forward edge)"
    by blast
  define m where "m = far_end forward edge"
  have m_valid: "m < length h" and e_m: "e \<in> ?P m" using edge by (simp_all add: m_def)
  have step: "(c, m) \<in> ?R"
    unfolding step_rel_iff [OF con] m_def using c_valid e(1) edge(1,2) by blast
  have m_reach: "m \<in> reachable forward h tbl seed"
    using c_reach step by (auto simp: reachable_def intro: rtrancl_into_rtrancl)
  have m_seed: "m \<noteq> seed"
  proof
    assume "m = seed"
    with c_reach step have "(seed, seed) \<in> ?R\<^sup>+"
      by (auto simp: reachable_def intro: rtrancl_into_trancl1)
    with acy show False by (auto simp: acyclic_def)
  qed
  have m_new: "m \<notin> set (vis @ ready_queue g)"
  proof
    assume "m \<in> set (vis @ ready_queue g)"
    with rdy m_valid m_seed have "?P m \<subseteq> A" by blast
    with e_m e(2) show False by blast
  qed
  have only_m: "n = m" if "n < length h" "e \<in> ?P n" for n
    using parent_edge [OF con that] edge(1) by (auto simp: m_def)
  have cnt_m: "eval_map_at (eval_map g) m = card (?P m \<inter> A)"
    using cnt m_valid m_new by simp
  have card_m: "card (?P m \<inter> insert e A) = card (?P m \<inter> A) + 1"
  proof -
    have "?P m \<inter> insert e A = insert e (?P m \<inter> A)" using e_m by blast
    moreover have "e \<notin> ?P m \<inter> A" using e(2) by blast
    ultimately show ?thesis by simp
  qed
  have other: "?P n \<inter> insert e A = ?P n \<inter> A" if "n < length h" "n \<noteq> m" for n
    using only_m [OF that(1)] that(2) by blast
  have full: "eval_map_at (eval_map g) m + 1 = length (parent_edges forward (h ! m)) \<longleftrightarrow> ?P m \<subseteq> insert e A"
    using card_arrived_full [OF distinct_edge_lists(2) [OF con m_valid], of forward "insert e A"]
    by (simp add: cnt_m card_m)
  define g' where "g' = g\<lparr>eval_map := eval_map_incr (eval_map g) m,
                  ready_queue := (if ?P m \<subseteq> insert e A then ready_queue g @ [m] else ready_queue g)\<rparr>"
  have res: "visit_edge forward h g e = Inr g'"
    using visit_edge_result [of g e edge forward h] edge tbl full
    by (simp add: g'_def m_def)
  have q': "set (ready_queue g') = set (ready_queue g) \<union> (if ?P m \<subseteq> insert e A then {m} else {})"
    by (simp add: g'_def)
  have "traversal_inv forward h tbl seed vis (insert e A) g'"
    unfolding traversal_inv_def
  proof (intro conjI allI impI)
    show "edges g' = tbl" using tbl by (simp add: g'_def)
    show "distinct (vis @ ready_queue g')" using dist m_new by (auto simp: g'_def)
    show "set (vis @ ready_queue g') \<subseteq> reachable forward h tbl seed"
      using sub m_reach by (auto simp: g'_def)
    show "seed \<in> set (vis @ ready_queue g')" using seed_in by (auto simp: g'_def)
    show "insert e A \<subseteq> (\<Union>n\<in>set vis. set (child_edges forward (h ! n)))"
      using A c e(1) by blast
    show "producers_first forward h tbl seed vis" by (rule pf)
  next
    fix n assume n: "n < length h"
    show "eval_map_at (eval_map g') n =
          card (?P n \<inter> insert e A) + (if n \<in> set vis then 1 else 0)"
    proof (cases "n = m")
      case True
      with cnt_m card_m m_new show ?thesis by (simp add: g'_def eval_map_at_incr)
    next
      case False
      with cnt n other [OF n] show ?thesis by (simp add: g'_def eval_map_at_incr)
    qed
  next
    fix n assume n: "n < length h" and ns: "n \<noteq> seed"
    show "n \<in> set (vis @ ready_queue g') \<longleftrightarrow>
          parent_edges forward (h ! n) \<noteq> [] \<and> ?P n \<subseteq> insert e A"
    proof (cases "n = m")
      case True
      have "parent_edges forward (h ! m) \<noteq> []" using e_m by auto
      with True m_new show ?thesis by (auto simp: g'_def)
    next
      case False
      have "e \<notin> ?P n" using only_m [OF n] False by blast
      then have "?P n \<subseteq> insert e A \<longleftrightarrow> ?P n \<subseteq> A" by blast
      moreover have "n \<in> set (vis @ ready_queue g') \<longleftrightarrow> n \<in> set (vis @ ready_queue g)"
        using False by (auto simp: g'_def)
      ultimately show ?thesis using rdy n ns by simp
    qed
  qed
  with res show ?thesis by blast
qed

lemma visit_edges_inv:
  assumes con: "consistent h tbl"
    and acy: "acyclic (step_rel forward h tbl)"
    and seed: "seed < length h"
    and c: "c \<in> set vis"
  shows "traversal_inv forward h tbl seed vis A g \<Longrightarrow>
         set es \<subseteq> set (child_edges forward (h ! c)) \<Longrightarrow> distinct es \<Longrightarrow> set es \<inter> A = {} \<Longrightarrow>
         \<exists>g'. visit_edges forward h es g = Inr g' \<and> traversal_inv forward h tbl seed vis (A \<union> set es) g'"
proof (induction es arbitrary: A g)
  case Nil
  then show ?case by simp
next
  case (Cons e es)
  from Cons.prems have e: "e \<in> set (child_edges forward (h ! c))" "e \<notin> A" by auto
  from visit_edge_inv [OF con acy seed Cons.prems(1) c e] obtain g1 where
    g1: "visit_edge forward h g e = Inr g1" "traversal_inv forward h tbl seed vis (insert e A) g1"
    by blast
  from Cons.prems have "set es \<subseteq> set (child_edges forward (h ! c))" "distinct es" "set es \<inter> insert e A = {}"
    by auto
  from Cons.IH [OF g1(2) this] obtain g' where
    "visit_edges forward h es g1 = Inr g'" "traversal_inv forward h tbl seed vis (insert e A \<union> set es) g'"
    by blast
  with g1(1) show ?case by simp
qed

subsection \<open>Visitors that leave the edge lists alone\<close>

lemma same_topology_refl: "same_topology h h"
  by (simp add: same_topology_def)

lemma same_topology_trans: "same_topology h h1 \<Longrightarrow> same_topology h1 h2 \<Longrightarrow> same_topology h h2"
  by (simp add: same_topology_def)

lemma same_topology_length: "same_topology h h' \<Longrightarrow> length h' = length h"
  unfolding same_topology_def by (metis length_map)

lemma same_topology_nth:
  assumes "same_topology h h'" "n < length h"
  shows "input_edges (h' ! n) = input_edges (h ! n)" "output_edges (h' ! n) = output_edges (h ! n)"
proof -
  from assms have n': "n < length h'" by (simp add: same_topology_length)
  from assms(1) have "map input_edges h' ! n = map input_edges h ! n"
    and "map output_edges h' ! n = map output_edges h ! n"
    by (simp_all add: same_topology_def)
  with assms(2) n' show "input_edges (h' ! n) = input_edges (h ! n)"
    and "output_edges (h' ! n) = output_edges (h ! n)" by simp_all
qed

lemma same_topology_edges:
  assumes "same_topology h h'" "n < length h"
  shows "child_edges forward (h' ! n) = child_edges forward (h ! n)"
    and "parent_edges forward (h' ! n) = parent_edges forward (h ! n)"
  using same_topology_nth [OF assms] by (simp_all add: child_edges_def parent_edges_def)

lemma visit_edge_topology:
  assumes "same_topology h h'"
  shows "visit_edge forward h' g e = visit_edge forward h g e"
proof (cases "edges g e")
  case None
  then show ?thesis by (simp add: visit_edge_def)
next
  case (Some edge)
  note len = same_topology_length [OF assms]
  show ?thesis
  proof (cases "far_end forward edge < length h")
    case True
    then have "far_end forward edge < length h'" using len by simp
    from visit_edge_result [OF Some this] visit_edge_result [OF Some True]
      same_topology_edges(2) [OF assms True, of forward]
    show ?thesis by simp
  next
    case False
    then have "visit_edge forward h g e = Inl InvalidPointer"
      using Some by (cases forward) (simp_all add: visit_edge_def far_end_def Let_def)
    moreover from False len have "visit_edge forward h' g e = Inl InvalidPointer"
      using Some by (cases forward) (simp_all add: visit_edge_def far_end_def Let_def)
    ultimately show ?thesis by simp
  qed
qed

lemma visit_edges_topology:
  assumes "same_topology h h'"
  shows "visit_edges forward h' es g = visit_edges forward h es g"
  by (induction es arbitrary: g) (simp_all add: visit_edge_topology [OF assms] split: sum.splits)

subsection \<open>One iteration\<close>

lemma queued_producers_visited:
  assumes con: "consistent h tbl" and seed: "seed < length h"
    and inv: "traversal_inv forward h tbl seed vis A g"
    and n: "n \<in> set (vis @ ready_queue g)" "n \<noteq> seed"
    and p: "(p, n) \<in> step_rel forward h tbl"
  shows "p \<in> set vis"
proof -
  from inv have sub: "set (vis @ ready_queue g) \<subseteq> reachable forward h tbl seed"
    and A: "A \<subseteq> (\<Union>n\<in>set vis. set (child_edges forward (h ! n)))"
    and rdy: "\<forall>n<length h. n \<noteq> seed \<longrightarrow>
        (n \<in> set (vis @ ready_queue g) \<longleftrightarrow>
         parent_edges forward (h ! n) \<noteq> [] \<and> set (parent_edges forward (h ! n)) \<subseteq> A)"
    unfolding traversal_inv_def by blast+
  from n sub have n_valid: "n < length h" by (auto intro: reachable_valid [OF con seed])
  with rdy n have full: "set (parent_edges forward (h ! n)) \<subseteq> A" by blast
  from p obtain e edge where p_valid: "p < length h" and e: "e \<in> set (child_edges forward (h ! p))"
    and edge: "tbl e = Some edge" "near_end forward edge = p" "far_end forward edge = n"
    unfolding step_rel_iff [OF con] by blast
  from child_edge [OF con p_valid e] edge have "e \<in> set (parent_edges forward (h ! n))" by auto
  with full A obtain v where v: "v \<in> set vis" "e \<in> set (child_edges forward (h ! v))" by blast
  from v(1) inv have "v \<in> reachable forward h tbl seed" unfolding traversal_inv_def by auto
  then have "v < length h" by (rule reachable_valid [OF con seed])
  from child_edge [OF con this v(2)] edge have "v = p" by auto
  with v(1) show ?thesis by simp
qed

lemma producers_first_snoc:
  assumes "producers_first forward h tbl seed vis"
    and "c \<noteq> seed \<Longrightarrow> \<forall>p. (p, c) \<in> step_rel forward h tbl \<longrightarrow> p \<in> set vis"
  shows "producers_first forward h tbl seed (vis @ [c])"
  unfolding producers_first_def
proof (intro allI impI)
  fix k p
  assume k: "k < length (vis @ [c])" and ns: "(vis @ [c]) ! k \<noteq> seed"
    and p: "(p, (vis @ [c]) ! k) \<in> step_rel forward h tbl"
  show "p \<in> set (take k (vis @ [c]))"
  proof (cases "k < length vis")
    case True
    with assms(1) ns p have "p \<in> set (take k vis)"
      by (simp add: producers_first_def nth_append)
    with True show ?thesis by simp
  next
    case False
    with k have "k = length vis" by simp
    with assms(2) ns p show ?thesis by simp
  qed
qed

lemma loop_body_inv:
  assumes con: "consistent h0 tbl"
    and acy: "acyclic (step_rel forward h0 tbl)"
    and seed: "seed < length h0"
    and pres: "preserves_topology node_fn"
    and top: "same_topology h0 h"
    and inv: "traversal_inv forward h0 tbl seed vis (\<Union>n\<in>set vis. set (child_edges forward (h0 ! n))) g"
    and q: "ready_queue g = c # rest"
    and visit: "node_fn c h = Inr h'"
  shows "same_topology h0 h' \<and>
         (\<exists>g'. loop_body node_fn forward (h, g) = Inr (h', g') \<and>
               traversal_inv forward h0 tbl seed (vis @ [c])
                 (\<Union>n\<in>set (vis @ [c]). set (child_edges forward (h0 ! n))) g')"
proof -
  let ?C = "\<lambda>n. set (child_edges forward (h0 ! n))"
  let ?P = "\<lambda>n. set (parent_edges forward (h0 ! n))"
  let ?A = "\<Union>n\<in>set vis. ?C n"
  from inv have tbl: "edges g = tbl"
    and dist: "distinct (vis @ ready_queue g)"
    and sub: "set (vis @ ready_queue g) \<subseteq> reachable forward h0 tbl seed"
    and seed_in: "seed \<in> set (vis @ ready_queue g)"
    and cnt: "\<forall>n<length h0. eval_map_at (eval_map g) n = card (?P n \<inter> ?A) + (if n \<in> set vis then 1 else 0)"
    and rdy: "\<forall>n<length h0. n \<noteq> seed \<longrightarrow>
        (n \<in> set (vis @ ready_queue g) \<longleftrightarrow> parent_edges forward (h0 ! n) \<noteq> [] \<and> ?P n \<subseteq> ?A)"
    and pf: "producers_first forward h0 tbl seed vis"
    unfolding traversal_inv_def by blast+
  from pres visit have "same_topology h h'" by (auto simp: preserves_topology_def)
  with top have top': "same_topology h0 h'" by (rule same_topology_trans)
  from q sub have c_reach: "c \<in> reachable forward h0 tbl seed" by auto
  then have c_valid: "c < length h0" by (rule reachable_valid [OF con seed])
  from q dist have c_new: "c \<notin> set vis" by auto
  define g1 where "g1 = g\<lparr>ready_queue := rest, eval_map := eval_map_incr (eval_map g) c\<rparr>"
  have sets: "set ((vis @ [c]) @ ready_queue g1) = set (vis @ ready_queue g)"
    using q by (auto simp: g1_def)
  have pf': "producers_first forward h0 tbl seed (vis @ [c])"
  proof (rule producers_first_snoc [OF pf])
    assume "c \<noteq> seed"
    then show "\<forall>p. (p, c) \<in> step_rel forward h0 tbl \<longrightarrow> p \<in> set vis"
      using queued_producers_visited [OF con seed inv, of c] q by auto
  qed
  have inv1: "traversal_inv forward h0 tbl seed (vis @ [c]) ?A g1"
    unfolding traversal_inv_def
  proof (intro conjI allI impI)
    show "edges g1 = tbl" using tbl by (simp add: g1_def)
    show "distinct ((vis @ [c]) @ ready_queue g1)" using dist q by (simp add: g1_def)
    show "set ((vis @ [c]) @ ready_queue g1) \<subseteq> reachable forward h0 tbl seed"
      using sub sets by simp
    show "seed \<in> set ((vis @ [c]) @ ready_queue g1)" using seed_in sets by simp
    show "?A \<subseteq> (\<Union>n\<in>set (vis @ [c]). ?C n)" by auto
    show "producers_first forward h0 tbl seed (vis @ [c])" by (rule pf')
  next
    fix n assume n: "n < length h0"
    show "eval_map_at (eval_map g1) n = card (?P n \<inter> ?A) + (if n \<in> set (vis @ [c]) then 1 else 0)"
      using cnt n c_new by (auto simp: g1_def eval_map_at_incr)
  next
    fix n assume n: "n < length h0" "n \<noteq> seed"
    show "n \<in> set ((vis @ [c]) @ ready_queue g1) \<longleftrightarrow>
          parent_edges forward (h0 ! n) \<noteq> [] \<and> ?P n \<subseteq> ?A"
      using rdy n sets by simp
  qed
  have fresh: "?C c \<inter> ?A = {}"
  proof (rule ccontr)
    assume "?C c \<inter> ?A \<noteq> {}"
    then obtain e v where e: "e \<in> ?C c" and v: "v \<in> set vis" "e \<in> ?C v" by blast
    from v(1) sub have "v < length h0" by (auto intro: reachable_valid [OF con seed])
    from child_edge [OF con this v(2)] child_edge [OF con c_valid e] have "v = c" by auto
    with v(1) c_new show False by simp
  qed
  have c_in: "c \<in> set (vis @ [c])" by simp
  from visit_edges_inv [OF con acy seed c_in inv1 subset_refl distinct_edge_lists(1) [OF con c_valid] fresh]
  obtain g' where g': "visit_edges forward h0 (child_edges forward (h0 ! c)) g1 = Inr g'"
    "traversal_inv forward h0 tbl seed (vis @ [c]) (?A \<union> ?C c) g'"
    by auto
  have "(\<Union>n\<in>set (vis @ [c]). ?C n) = ?A \<union> ?C c" by auto
  with g'(2) have inv': "traversal_inv forward h0 tbl seed (vis @ [c]) (\<Union>n\<in>set (vis @ [c]). ?C n) g'"
    by simp
  have c_valid': "c < length h'" using c_valid same_topology_length [OF top'] by simp
  have "(if forward then output_edges (h' ! c) else input_edges (h' ! c)) = child_edges forward (h0 ! c)"
    using same_topology_edges(1) [OF top' c_valid, of forward] by (simp add: child_edges_def)
  with g'(1) visit q c_valid' have "loop_body node_fn forward (h, g) = Inr (h', g')"
    by (simp add: loop_body_def g1_def visit_edges_topology [OF top'])
  with top' inv' show ?thesis by blast
qed

lemma loop_body_abort:
  assumes "ready_queue g = c # rest" "node_fn c h = Inl err"
  shows "loop_body node_fn forward (h, g) = Inl err"
  using assms by (simp add: loop_body_def)

subsection \<open>The whole traversal\<close>

lemma all_reachable_visited:
  assumes con: "consistent h tbl"
    and acy: "acyclic (step_rel forward h tbl)"
    and seed: "seed < length h"
    and clo: "producers_reachable forward h tbl seed"
    and inv: "traversal_inv forward h tbl seed vis (\<Union>n\<in>set vis. set (child_edges forward (h ! n))) g"
    and q: "ready_queue g = []"
  shows "set vis = reachable forward h tbl seed"
proof -
  let ?R = "step_rel forward h tbl"
  let ?A = "\<Union>n\<in>set vis. set (child_edges forward (h ! n))"
  from inv q have sub: "set vis \<subseteq> reachable forward h tbl seed"
    and seed_in: "seed \<in> set vis"
    and rdy: "\<forall>n<length h. n \<noteq> seed \<longrightarrow>
        (n \<in> set vis \<longleftrightarrow> parent_edges forward (h ! n) \<noteq> [] \<and> set (parent_edges forward (h ! n)) \<subseteq> ?A)"
    unfolding traversal_inv_def by auto
  have "wf ?R" by (rule finite_acyclic_wf [OF finite_step_rel [OF con] acy])
  then have "n \<in> reachable forward h tbl seed \<longrightarrow> n \<in> set vis" for n
  proof (induction n rule: wf_induct_rule)
    case (less n)
    show ?case
    proof
      assume n: "n \<in> reachable forward h tbl seed"
      then have n_valid: "n < length h" by (rule reachable_valid [OF con seed])
      show "n \<in> set vis"
      proof (cases "n = seed")
        case True
        with seed_in show ?thesis by simp
      next
        case False
        from n have "(seed, n) \<in> ?R\<^sup>*" by (simp add: reachable_def)
        with False obtain p where "(p, n) \<in> ?R"
          by (auto elim: rtranclE)
        then obtain e edge where p_valid: "p < length h" and e: "e \<in> set (child_edges forward (h ! p))"
          and edge: "tbl e = Some edge" "near_end forward edge = p" "far_end forward edge = n"
          unfolding step_rel_iff [OF con] by blast
        from child_edge [OF con p_valid e] edge have "e \<in> set (parent_edges forward (h ! n))" by auto
        then have nonempty: "parent_edges forward (h ! n) \<noteq> []" by auto
        have "set (parent_edges forward (h ! n)) \<subseteq> ?A"
        proof
          fix e' assume e': "e' \<in> set (parent_edges forward (h ! n))"
          from parent_edge [OF con n_valid e'] obtain edge' where
            edge': "tbl e' = Some edge'" "far_end forward edge' = n" "near_end forward edge' < length h"
              "e' \<in> set (child_edges forward (h ! near_end forward edge'))"
            by blast
          define p' where "p' = near_end forward edge'"
          have step: "(p', n) \<in> ?R"
            unfolding step_rel_iff [OF con] p'_def using edge' by blast
          with clo n have "p' \<in> reachable forward h tbl seed"
            by (auto simp: producers_reachable_def)
          with less.IH [OF step] have "p' \<in> set vis" by simp
          with edge'(4) show "e' \<in> ?A" by (auto simp: p'_def)
        qed
        with rdy n_valid False nonempty show ?thesis by blast
      qed
    qed
  qed
  with sub show ?thesis by blast
qed

lemma traverse_loop_inv:
  assumes con: "consistent h0 tbl"
    and acy: "acyclic (step_rel forward h0 tbl)"
    and seed: "seed < length h0"
    and clo: "producers_reachable forward h0 tbl seed"
    and pres: "preserves_topology node_fn"
  shows "same_topology h0 h \<Longrightarrow>
         traversal_inv forward h0 tbl seed vis (\<Union>n\<in>set vis. set (child_edges forward (h0 ! n))) g \<Longrightarrow>
         \<exists>rest. distinct (vis @ rest) \<and> set (vis @ rest) \<subseteq> reachable forward h0 tbl seed \<and>
            producers_first forward h0 tbl seed (vis @ rest) \<and>
            (case visit_all node_fn rest h of
               Inl err \<Rightarrow> traverse_loop node_fn forward (h, g) = Some (Inl err)
             | Inr h' \<Rightarrow> same_topology h0 h' \<and> set (vis @ rest) = reachable forward h0 tbl seed \<and>
                 (\<exists>g'. traverse_loop node_fn forward (h, g) = Some (Inr (h', g'))))"
proof (induction "length h0 - length vis" arbitrary: vis h g rule: less_induct)
  case less
  note top = less.prems(1) and inv = less.prems(2)
  from inv have dist: "distinct (vis @ ready_queue g)"
    and sub: "set (vis @ ready_queue g) \<subseteq> reachable forward h0 tbl seed"
    and pf: "producers_first forward h0 tbl seed vis"
    unfolding traversal_inv_def by blast+
  show ?case
  proof (cases "ready_queue g")
    case Nil
    from all_reachable_visited [OF con acy seed clo inv Nil] dist sub pf top Nil
    show ?thesis
      by (intro exI [of _ "[]"]) (simp add: traverse_loop.simps)
  next
    case (Cons c rest)
    have c_new: "c \<notin> set vis" and c_reach: "c \<in> reachable forward h0 tbl seed"
      using dist sub Cons by auto
    have pf': "producers_first forward h0 tbl seed (vis @ [c])"
    proof (rule producers_first_snoc [OF pf])
      assume "c \<noteq> seed"
      then show "\<forall>p. (p, c) \<in> step_rel forward h0 tbl \<longrightarrow> p \<in> set vis"
        using queued_producers_visited [OF con seed inv, of c] Cons by auto
    qed
    show ?thesis
    proof (cases "node_fn c h")
      case (Inl err)
      have "traverse_loop node_fn forward (h, g) = Some (Inl err)"
        using loop_body_abort [where node_fn = node_fn and h = h, OF Cons Inl, of forward] Cons
        by (subst traverse_loop.simps) simp
      with Inl c_new c_reach dist sub pf' show ?thesis
        by (intro exI [of _ "[c]"]) (simp add: Cons)
    next
      case (Inr h')
      from loop_body_inv [OF con acy seed pres top inv Cons Inr] obtain g' where
        top': "same_topology h0 h'"
        and body: "loop_body node_fn forward (h, g) = Inr (h', g')"
        and inv': "traversal_inv forward h0 tbl seed (vis @ [c])
                 (\<Union>n\<in>set (vis @ [c]). set (child_edges forward (h0 ! n))) g'"
        by blast
      have "card (set (vis @ ready_queue g)) \<le> card {..<length h0}"
        using sub reachable_valid [OF con seed] by (intro card_mono) auto
      moreover have "card (set (vis @ ready_queue g)) = length (vis @ ready_queue g)"
        using dist by (rule distinct_card)
      ultimately have "length vis < length h0"
        using Cons by simp
      then have "length h0 - length (vis @ [c]) < length h0 - length vis" by simp
      from less.hyps [OF this top' inv'] obtain rest' where
        r: "distinct ((vis @ [c]) @ rest')"
          "set ((vis @ [c]) @ rest') \<subseteq> reachable forward h0 tbl seed"
          "producers_first forward h0 tbl seed ((vis @ [c]) @ rest')"
          "case visit_all node_fn rest' h' of
               Inl err \<Rightarrow> traverse_loop node_fn forward (h', g') = Some (Inl err)
             | Inr h'' \<Rightarrow> same_topology h0 h'' \<and> set ((vis @ [c]) @ rest') = reachable forward h0 tbl seed \<and>
                 (\<exists>g''. traverse_loop node_fn forward (h', g') = Some (Inr (h'', g'')))"
        by blast
      have unfold: "traverse_loop node_fn forward (h, g) = traverse_loop node_fn forward (h', g')"
        using body Cons by (subst traverse_loop.simps) simp
      have va: "visit_all node_fn (c # rest') h = visit_all node_fn rest' h'"
        using Inr by simp
      show ?thesis
      proof (intro exI [of _ "c # rest'"] conjI)
        show "distinct (vis @ c # rest')" using r(1) by simp
        show "set (vis @ c # rest') \<subseteq> reachable forward h0 tbl seed" using r(2) by simp
        show "producers_first forward h0 tbl seed (vis @ c # rest')" using r(3) by simp
        show "case visit_all node_fn (c # rest') h of
               Inl err \<Rightarrow> traverse_loop node_fn forward (h, g) = Some (Inl err)
             | Inr h' \<Rightarrow> same_topology h0 h' \<and> set (vis @ c # rest') = reachable forward h0 tbl seed \<and>
                 (\<exists>g'. traverse_loop node_fn forward (h, g) = Some (Inr (h', g')))"
          unfolding va unfold using r(4)
          by (cases "visit_all node_fn rest' h'") simp_all
      qed
    qed
  qed
qed

lemma traversal_inv_initial:
  assumes seed: "seed < length h" and g: "ready_queue g = []" "eval_map g = Map.empty"
  shows "traversal_inv forward h (edges g) seed []
           (\<Union>n\<in>set []. set (child_edges forward (h ! n))) (g\<lparr>ready_queue := ready_queue g @ [seed]\<rparr>)"
  using assms
  by (auto simp: traversal_inv_def reachable_def eval_map_at_def producers_first_def)

lemma visit_edge_dag:
  assumes "visit_edge forward h g e = Inr g'"
  shows "g'\<lparr>ready_queue := [], eval_map := Map.empty\<rparr> = g\<lparr>ready_queue := [], eval_map := Map.empty\<rparr>"
  using assms by (auto simp: visit_edge_def Let_def split: option.splits if_splits)

lemma visit_edges_dag:
  "visit_edges forward h es g = Inr g' \<Longrightarrow>
   g'\<lparr>ready_queue := [], eval_map := Map.empty\<rparr> = g\<lparr>ready_queue := [], eval_map := Map.empty\<rparr>"
proof (induction es arbitrary: g)
  case Nil
  then show ?case by simp
next
  case (Cons e es)
  then obtain g1 where g1: "visit_edge forward h g e = Inr g1" "visit_edges forward h es g1 = Inr g'"
    by (auto split: sum.splits)
  from Cons.IH [OF g1(2)] visit_edge_dag [OF g1(1)] show ?case by simp
qed

lemma loop_body_dag:
  assumes "loop_body node_fn forward (h, g) = Inr (h', g')"
  shows "g'\<lparr>ready_queue := [], eval_map := Map.empty\<rparr> = g\<lparr>ready_queue := [], eval_map := Map.empty\<rparr>"
proof -
  from assms obtain c rest es where
    "visit_edges forward h' es (g\<lparr>ready_queue := rest, eval_map := eval_map_incr (eval_map g) c\<rparr>) = Inr g'"
    by (auto simp: loop_body_def split: list.splits sum.splits if_splits)
  from visit_edges_dag [OF this] show ?thesis by simp
qed

lemma traverse_loop_dag:
  assumes "traverse_loop node_fn forward (h, g) = Some (Inr (h', g'))"
  shows "g'\<lparr>ready_queue := [], eval_map := Map.empty\<rparr> = g\<lparr>ready_queue := [], eval_map := Map.empty\<rparr>"
proof -
  let ?I = "\<lambda>s :: 'a state. (snd s)\<lparr>ready_queue := [], eval_map := Map.empty\<rparr> =
                 g\<lparr>ready_queue := [], eval_map := Map.empty\<rparr>"
  have "case Inr (h', g') :: error + 'a state of Inl err \<Rightarrow> True
        | Inr s' \<Rightarrow> ?I s' \<and> ready_queue (snd s') = []"
  proof (rule traverse_loop_invariant [OF assms, where I = ?I])
    show "?I (h, g)" by simp
  next
    fix s s' :: "'a state"
    assume I: "?I s" and "loop_body node_fn forward s = Inr s'"
    then show "?I s'"
      using loop_body_dag [of node_fn forward "fst s" "snd s" "fst s'" "snd s'"] by simp
  qed
  then show ?thesis by simp
qed

lemma loop_body_visit:
  assumes "loop_body node_fn forward (h, g) = Inr (h', g')" "ready_queue g = c # rest"
  shows "node_fn c h = Inr h'"
  using assms by (auto simp: loop_body_def split: sum.splits if_splits)

lemma loop_prefix_inv:
  assumes con: "consistent h0 tbl"
    and acy: "acyclic (step_rel forward h0 tbl)"
    and seed: "seed < length h0"
    and pres: "preserves_topology node_fn"
  shows "same_topology h0 h \<Longrightarrow>
         traversal_inv forward h0 tbl seed vis (\<Union>n\<in>set vis. set (child_edges forward (h0 ! n))) g \<Longrightarrow>
         loop_prefix node_fn forward k (h, g) = Inr (hk, gk) \<Longrightarrow>
         same_topology h0 hk \<and>
         traversal_inv forward h0 tbl seed (vis @ dequeued node_fn forward k (h, g))
           (\<Union>n\<in>set (vis @ dequeued node_fn forward k (h, g)). set (child_edges forward (h0 ! n))) gk"
proof (induction k arbitrary: vis h g)
  case 0
  then show ?case by simp
next
  case (Suc k)
  show ?case
  proof (cases "ready_queue g")
    case Nil
    with Suc.prems show ?thesis by simp
  next
    case (Cons c rest)
    with Suc.prems(3) obtain h' g' where
      body: "loop_body node_fn forward (h, g) = Inr (h', g')"
      and run: "loop_prefix node_fn forward k (h', g') = Inr (hk, gk)"
      by (auto split: sum.splits)
    from loop_body_inv [OF con acy seed pres Suc.prems(1,2) Cons loop_body_visit [OF body Cons]] body
    have top': "same_topology h0 h'"
      and inv': "traversal_inv forward h0 tbl seed (vis @ [c])
                 (\<Union>n\<in>set (vis @ [c]). set (child_edges forward (h0 ! n))) g'"
      by auto
    have "vis @ dequeued node_fn forward (Suc k) (h, g) = (vis @ [c]) @ dequeued node_fn forward k (h', g')"
      using Cons body by simp
    with Suc.IH [OF top' inv' run] show ?thesis by simp
  qed
qed

lemma same_topology_update:
  assumes "input_edges x = input_edges (h ! n)" "output_edges x = output_edges (h ! n)"
  shows "same_topology h (h[n := x])"
proof (cases "n < length h")
  case True
  with assms show ?thesis
    by (simp add: same_topology_def map_update list_update_same_conv)
next
  case False
  then have "length h \<le> n" by simp
  then have "h[n := x] = h" by (rule list_update_beyond)
  then show ?thesis by (simp add: same_topology_def)
qed

lemma sole_source_reachable:
  assumes con: "consistent h tbl"
    and acy: "acyclic (step_rel forward h tbl)"
    and src: "\<forall>n<length h. n \<noteq> seed \<longrightarrow> parent_edges forward (h ! n) \<noteq> []"
  shows "producers_reachable forward h tbl seed"
proof -
  let ?R = "step_rel forward h tbl"
  have "wf ?R" by (rule finite_acyclic_wf [OF finite_step_rel [OF con] acy])
  then have all: "n < length h \<longrightarrow> n \<in> reachable forward h tbl seed" for n
  proof (induction n rule: wf_induct_rule)
    case (less n)
    show ?case
    proof
      assume n: "n < length h"
      show "n \<in> reachable forward h tbl seed"
      proof (cases "n = seed")
        case True
        then show ?thesis by (simp add: reachable_def)
      next
        case False
        with src n obtain e where e: "e \<in> set (parent_edges forward (h ! n))"
          by (cases "parent_edges forward (h ! n)") auto
        from parent_edge [OF con n e] obtain edge where
          edge: "tbl e = Some edge" "far_end forward edge = n" "near_end forward edge < length h"
            "e \<in> set (child_edges forward (h ! near_end forward edge))"
          by blast
        have step: "(near_end forward edge, n) \<in> ?R"
          unfolding step_rel_iff [OF con] using edge by blast
        with less.IH edge(3) have "near_end forward edge \<in> reachable forward h tbl seed" by blast
        with step show ?thesis
          by (auto simp: reachable_def intro: rtrancl_into_rtrancl)
      qed
    qed
  qed
  show ?thesis
    unfolding producers_reachable_def
    using all step_rel_valid [OF con] by blast
qed

lemma sample_consistent: "consistent sample_heap sample_edges"
  by (simp add: consistent_def sample_defs All_less_Suc)

lemma sample_acyclic: "acyclic (dag_rel sample_heap sample_edges)"
proof (rule acyclicI_order [where f = "\<lambda>n. 3 - n"])
  fix a b assume "(a, b) \<in> dag_rel sample_heap sample_edges"
  then have "(a, b) \<in> {(0, 1), (0, 2), (1, 3), (2, 3)}"
    by (auto simp: dag_rel_def sample_defs less_Suc_eq split: if_splits)
  then show "3 - b < 3 - a" by auto
qed

lemma sample_producers_reachable:
  "producers_reachable True sample_heap sample_edges 0"
  "producers_reachable False sample_heap sample_edges 3"
  by (rule sole_source_reachable [OF sample_consistent acyclic_step_rel [OF sample_acyclic]],
      simp add: sample_defs parent_edges_def All_less_Suc)+

lemma node_method_topology:
  assumes "\<forall>f. input_edges (m f) = input_edges f \<and> output_edges (m f) = output_edges f"
  shows "preserves_topology (node_method m)"
  unfolding preserves_topology_def node_method_def
  using assms by (auto intro: same_topology_update split: if_splits)

lemma traverse_graph_order:
  assumes con: "consistent h (edges g)"
    and acy: "acyclic (dag_rel h (edges g))"
    and seed: "seed = (if forward then start_node g else end_node g)" "seed < length h"
    and clo: "producers_reachable forward h (edges g) seed"
    and idle: "ready_queue g = []" "eval_map g = Map.empty"
    and pres: "preserves_topology node_fn"
  shows "\<exists>order. distinct order \<and> set order \<subseteq> reachable forward h (edges g) seed \<and>
           producers_first forward h (edges g) seed order \<and>
           traverse_graph node_fn forward (h, g) =
             Some (case visit_all node_fn order h of Inl err \<Rightarrow> Inl err | Inr h' \<Rightarrow> Inr (h', g)) \<and>
           (\<forall>h'. visit_all node_fn order h = Inr h' \<longrightarrow>
              set order = reachable forward h (edges g) seed \<and> same_topology h h')"
proof -
  let ?g0 = "g\<lparr>ready_queue := ready_queue g @ [seed]\<rparr>"
  from traverse_loop_inv [OF con acyclic_step_rel [OF acy] seed(2) clo pres same_topology_refl
      traversal_inv_initial [OF seed(2) idle], unfolded append_Nil]
  obtain order where order: "distinct order" "set order \<subseteq> reachable forward h (edges g) seed"
      "producers_first forward h (edges g) seed order"
    and res: "case visit_all node_fn order h of
               Inl err \<Rightarrow> traverse_loop node_fn forward (h, ?g0) = Some (Inl err)
             | Inr h' \<Rightarrow> same_topology h h' \<and> set order = reachable forward h (edges g) seed \<and>
                 (\<exists>g'. traverse_loop node_fn forward (h, ?g0) = Some (Inr (h', g')))"
    by blast
  show ?thesis
  proof (cases "visit_all node_fn order h")
    case (Inl err)
    with res order seed(1) show ?thesis
      by (intro exI [of _ order]) (simp add: traverse_graph_def)
  next
    case (Inr h')
    with res obtain g' where all: "set order = reachable forward h (edges g) seed" "same_topology h h'"
      and run: "traverse_loop node_fn forward (h, ?g0) = Some (Inr (h', g'))" by auto
    from traverse_loop_dag [OF run] idle have "g'\<lparr>eval_map := Map.empty, ready_queue := []\<rparr> = g"
      by (cases g, cases g') simp
    moreover have "ready_queue g' = []" using traverse_loop_exit [OF run] by simp
    ultimately have "g'\<lparr>eval_map := Map.empty\<rparr> = g" by (cases g') auto
    with run Inr all order seed(1) show ?thesis
      by (intro exI [of _ order]) (simp add: traverse_graph_def)
  qed
qed


subsection \<open>The logging visitor and the graph with two sources\<close>

text \<open>
  The log in the input buffer of node 0 is the list of the calls of the visitor, so a run
  of \<^verbatim>\<open>traverse_graph\<close> with this visitor determines the order of its visits.
\<close>

lemma log_visit_topology: "preserves_topology log_visit"
  unfolding preserves_topology_def
  by (auto simp: log_visit_def intro: same_topology_update split: if_splits)

lemma visit_all_log:
  "set order \<subseteq> {..<length h} \<Longrightarrow>
   visit_all log_visit order h =
     (if order = [] then Inr h
      else Inr (h[0 := (h ! 0)\<lparr>input_data := input_data (h ! 0) @ map int order\<rparr>]))"
proof (induction order arbitrary: h)
  case Nil
  show ?case by simp
next
  case (Cons n rest)
  let ?h1 = "h[0 := (h ! 0)\<lparr>input_data := input_data (h ! 0) @ [int n]\<rparr>]"
  from Cons.prems have n: "n < length h" and rest: "set rest \<subseteq> {..<length ?h1}" by simp_all
  from n have v: "log_visit n h = Inr ?h1" by (simp add: log_visit_def)
  from n have pos: "0 < length h" by (cases h) simp_all
  show ?case
    using Cons.IH [OF rest] pos by (simp add: v)
qed

lemma logged_order:
  assumes eq: "traverse_graph log_visit forward (h, g) =
             Some (case visit_all log_visit order h of Inl err \<Rightarrow> Inl err | Inr h' \<Rightarrow> Inr (h', g))"
    and run: "traverse_graph log_visit forward (h, g) = Some (Inr (h', g'))"
    and valid: "set order \<subseteq> {..<length h}"
    and log: "drop (length (input_data (h ! 0))) (input_data (h' ! 0)) = map int expected"
  shows "order = expected"
proof -
  have "map int order = drop (length (input_data (h ! 0))) (input_data (h' ! 0))"
  proof (cases "order = []")
    case True
    with eq run show ?thesis by simp
  next
    case False
    with valid have pos: "0 < length h" by (cases order; cases h) auto
    from eq run False pos show ?thesis by (simp add: visit_all_log [OF valid])
  qed
  with log have "map int order = map int expected" by simp
  then show ?thesis by (simp add: inj_map_eq_map [OF inj_of_nat])
qed

lemma join_consistent: "consistent join_heap join_edges"
  by (simp add: consistent_def join_heap_def join_edges_def All_less_Suc)

lemma join_acyclic: "acyclic (dag_rel join_heap join_edges)"
proof (rule acyclicI_order [where f = "\<lambda>n. 2 - n"])
  fix a b assume "(a, b) \<in> dag_rel join_heap join_edges"
  then have "(a, b) \<in> {(0, 2), (1, 2)}"
    by (auto simp: dag_rel_def join_heap_def join_edges_def less_Suc_eq split: if_splits)
  then show "2 - b < 2 - a" by auto
qed

text \<open>
  C1. In an acyclic graph whose edge lists agree with the edge table, where every producer
  of a node reachable from the seed is itself reachable from the seed, and with an idle
  scheduler, one call of \<^verbatim>\<open>traverse_graph\<close> ends, with the queue empty, and is the
  visitor applied along a list of reachable nodes without repetition: to every reachable
  node when no call of the visitor aborts, and up to the aborting call otherwise. This
  holds forward from the start node and in reverse from the end node. Without the
  condition on producers a reachable node can be left out, as the graph with two sources
  below shows.
\<close>

theorem traverse_graph_visits_reachable_once:
  assumes con: "consistent h (edges g)"
    and acy: "acyclic (dag_rel h (edges g))"
    and seed: "seed = (if forward then start_node g else end_node g)" "seed < length h"
    and clo: "producers_reachable forward h (edges g) seed"
    and idle: "ready_queue g = []" "eval_map g = Map.empty"
    and pres: "preserves_topology node_fn"
  shows "\<exists>order. distinct order \<and> set order \<subseteq> reachable forward h (edges g) seed \<and>
           traverse_graph node_fn forward (h, g) =
             Some (case visit_all node_fn order h of Inl err \<Rightarrow> Inl err | Inr h' \<Rightarrow> Inr (h', g)) \<and>
           (\<forall>h'. visit_all node_fn order h = Inr h' \<longrightarrow> set order = reachable forward h (edges g) seed)"
  using traverse_graph_order [OF assms] by blast

theorem traverse_graph_visits_reachable_once_witness:
  "consistent sample_heap (edges sample_dag) \<and> acyclic (dag_rel sample_heap (edges sample_dag)) \<and>
   producers_reachable True sample_heap (edges sample_dag) 0 \<and>
   producers_reachable False sample_heap (edges sample_dag) 3 \<and>
   preserves_topology log_visit \<and>
   set [0, 1, 2, 3] = reachable True sample_heap (edges sample_dag) 0 \<and>
   traverse_graph log_visit True (sample_heap, sample_dag) =
     Some (case visit_all log_visit [0, 1, 2, 3] sample_heap of
             Inl err \<Rightarrow> Inl err | Inr h' \<Rightarrow> Inr (h', sample_dag)) \<and>
   traverse_graph log_visit True (sample_heap, sample_dag) =
     Some (Inr (sample_heap[0 := (sample_heap ! 0)\<lparr>input_data := [5, 0, 1, 2, 3]\<rparr>], sample_dag)) \<and>
   set [3, 1, 2, 0] = reachable False sample_heap (edges sample_dag) 3 \<and>
   traverse_graph log_visit False (sample_heap, sample_dag) =
     Some (case visit_all log_visit [3, 1, 2, 0] sample_heap of
             Inl err \<Rightarrow> Inl err | Inr h' \<Rightarrow> Inr (h', sample_dag)) \<and>
   traverse_graph log_visit False (sample_heap, sample_dag) =
     Some (Inr (sample_heap[0 := (sample_heap ! 0)\<lparr>input_data := [5, 3, 1, 2, 0]\<rparr>], sample_dag))"
proof -
  let ?hf = "sample_heap[0 := (sample_heap ! 0)\<lparr>input_data := [5, 0, 1, 2, 3]\<rparr>]"
  let ?hr = "sample_heap[0 := (sample_heap ! 0)\<lparr>input_data := [5, 3, 1, 2, 0]\<rparr>]"
  have e: "edges sample_dag = sample_edges" by (simp add: sample_dag_def)
  have con: "consistent sample_heap (edges sample_dag)" using sample_consistent by (simp add: e)
  have acy: "acyclic (dag_rel sample_heap (edges sample_dag))" using sample_acyclic by (simp add: e)
  have clo: "producers_reachable True sample_heap (edges sample_dag) 0"
    "producers_reachable False sample_heap (edges sample_dag) 3"
    using sample_producers_reachable by (simp_all add: e)
  have pres: "preserves_topology log_visit" by (rule log_visit_topology)
  have idle: "ready_queue sample_dag = []" "eval_map sample_dag = Map.empty"
    by (simp_all add: sample_dag_def)
  have len: "length sample_heap = 4" by (simp add: sample_heap_def)
  have s0: "0 = (if True then start_node sample_dag else end_node sample_dag)" "0 < length sample_heap"
    and s3: "3 = (if False then start_node sample_dag else end_node sample_dag)" "3 < length sample_heap"
    by (simp_all add: sample_dag_def len)
  have runf: "traverse_graph log_visit True (sample_heap, sample_dag) = Some (Inr (?hf, sample_dag))"
    by (simp add: engine_defs sample_defs log_visit_def traverse_loop.simps)
  have runr: "traverse_graph log_visit False (sample_heap, sample_dag) = Some (Inr (?hr, sample_dag))"
    by (simp add: engine_defs sample_defs log_visit_def traverse_loop.simps)
  have logf: "drop (length (input_data (sample_heap ! 0))) (input_data (?hf ! 0)) = map int [0, 1, 2, 3]"
    by (simp add: sample_heap_def)
  have logr: "drop (length (input_data (sample_heap ! 0))) (input_data (?hr ! 0)) = map int [3, 1, 2, 0]"
    by (simp add: sample_heap_def)
  have valid: "reachable forward sample_heap (edges sample_dag) seed \<subseteq> {..<length sample_heap}"
    if "seed < length sample_heap" for forward seed
    using reachable_valid [OF con that, of _ forward] by auto
  from traverse_graph_visits_reachable_once [OF con acy s0 clo(1) idle pres]
  obtain o1 where o1: "set o1 \<subseteq> reachable True sample_heap (edges sample_dag) 0"
    "traverse_graph log_visit True (sample_heap, sample_dag) =
       Some (case visit_all log_visit o1 sample_heap of Inl err \<Rightarrow> Inl err | Inr h' \<Rightarrow> Inr (h', sample_dag))"
    "\<forall>h'. visit_all log_visit o1 sample_heap = Inr h' \<longrightarrow> set o1 = reachable True sample_heap (edges sample_dag) 0"
    by blast
  from o1(1) valid [OF s0(2)] have v1: "set o1 \<subseteq> {..<length sample_heap}" by blast
  have eq1: "o1 = [0, 1, 2, 3]" by (rule logged_order [OF o1(2) runf v1 logf])
  from o1(2) runf have "visit_all log_visit o1 sample_heap = Inr ?hf"
    by (cases "visit_all log_visit o1 sample_heap") simp_all
  with o1(3) have all1: "set o1 = reachable True sample_heap (edges sample_dag) 0" by blast
  from traverse_graph_visits_reachable_once [OF con acy s3 clo(2) idle pres]
  obtain o2 where o2: "set o2 \<subseteq> reachable False sample_heap (edges sample_dag) 3"
    "traverse_graph log_visit False (sample_heap, sample_dag) =
       Some (case visit_all log_visit o2 sample_heap of Inl err \<Rightarrow> Inl err | Inr h' \<Rightarrow> Inr (h', sample_dag))"
    "\<forall>h'. visit_all log_visit o2 sample_heap = Inr h' \<longrightarrow> set o2 = reachable False sample_heap (edges sample_dag) 3"
    by blast
  from o2(1) valid [OF s3(2)] have v2: "set o2 \<subseteq> {..<length sample_heap}" by blast
  have eq2: "o2 = [3, 1, 2, 0]" by (rule logged_order [OF o2(2) runr v2 logr])
  from o2(2) runr have "visit_all log_visit o2 sample_heap = Inr ?hr"
    by (cases "visit_all log_visit o2 sample_heap") simp_all
  with o2(3) have all2: "set o2 = reachable False sample_heap (edges sample_dag) 3" by blast
  show ?thesis
    using con acy clo pres all1 [unfolded eq1] o1(2) [unfolded eq1] runf
      all2 [unfolded eq2] o2(2) [unfolded eq2] runr
    by (intro conjI)
qed

text \<open>
  The graph with edges from node 0 and from node 1 into node 2 is acyclic and its edge
  lists agree with the edge table. From start node 0 the end node 2 is reachable, but
  walking edge 20 brings its counter to 1 of 2 and node 1 is never visited: the call
  returns with the visitor applied to node 0 only.
\<close>

theorem join_end_node_never_visited:
  "consistent join_heap (edges join_dag) \<and> acyclic (dag_rel join_heap (edges join_dag)) \<and>
   ready_queue join_dag = [] \<and> eval_map join_dag = Map.empty \<and> preserves_topology log_visit \<and>
   2 \<in> reachable True join_heap (edges join_dag) (start_node join_dag) \<and>
   traverse_graph log_visit True (join_heap, join_dag) =
     Some (Inr (join_heap[0 := (join_heap ! 0)\<lparr>input_data := [0]\<rparr>], join_dag))"
proof (intro conjI)
  have e: "edges join_dag = join_edges" by (simp add: join_dag_def)
  show "consistent join_heap (edges join_dag)" using join_consistent by (simp add: e)
  show "acyclic (dag_rel join_heap (edges join_dag))" using join_acyclic by (simp add: e)
  show "ready_queue join_dag = []" "eval_map join_dag = Map.empty" by (simp_all add: join_dag_def)
  show "preserves_topology log_visit" by (rule log_visit_topology)
  have "(0, 2) \<in> dag_rel join_heap join_edges"
    by (simp add: dag_rel_def join_heap_def join_edges_def)
  then show "2 \<in> reachable True join_heap (edges join_dag) (start_node join_dag)"
    by (auto simp: reachable_def step_rel_def e join_dag_def)
  show "traverse_graph log_visit True (join_heap, join_dag) =
     Some (Inr (join_heap[0 := (join_heap ! 0)\<lparr>input_data := [0]\<rparr>], join_dag))"
    by (simp add: engine_defs log_visit_def join_heap_def join_dag_def join_edges_def traverse_loop.simps)
qed


text \<open>
  C2. In such a graph, a node other than the seed that is in the queue after any number
  of iterations has had every one of its producers taken from the queue, and so visited,
  in an earlier iteration; and once all its producers have been visited the node is in
  the queue or has been visited itself. The mechanism: walking an edge increments the
  far node's counter and pushes the node exactly if the counter then equals the number
  of its edges on the side the traversal comes from.
\<close>

theorem enqueued_after_all_producers:
  assumes con: "consistent h (edges g)"
    and acy: "acyclic (dag_rel h (edges g))"
    and seed: "seed = (if forward then start_node g else end_node g)" "seed < length h"
    and idle: "ready_queue g = []" "eval_map g = Map.empty"
    and pres: "preserves_topology node_fn"
    and run: "loop_prefix node_fn forward k (h, g\<lparr>ready_queue := ready_queue g @ [seed]\<rparr>) = Inr (hk, gk)"
    and n: "n \<noteq> seed" "(p, n) \<in> step_rel forward h (edges g)"
  shows "(n \<in> set (ready_queue gk) \<longrightarrow>
            p \<in> set (dequeued node_fn forward k (h, g\<lparr>ready_queue := ready_queue g @ [seed]\<rparr>))) \<and>
         ((\<forall>p'. (p', n) \<in> step_rel forward h (edges g) \<longrightarrow>
             p' \<in> set (dequeued node_fn forward k (h, g\<lparr>ready_queue := ready_queue g @ [seed]\<rparr>))) \<longrightarrow>
          n \<in> set (dequeued node_fn forward k (h, g\<lparr>ready_queue := ready_queue g @ [seed]\<rparr>) @ ready_queue gk)) \<and>
         (\<forall>g1 e edge. edges g1 e = Some edge \<and> far_end forward edge < length h \<longrightarrow>
            (\<exists>g2. visit_edge forward h g1 e = Inr g2 \<and>
               eval_map_at (eval_map g2) (far_end forward edge) =
                 eval_map_at (eval_map g1) (far_end forward edge) + 1 \<and>
               ready_queue g2 =
                 (if eval_map_at (eval_map g2) (far_end forward edge) =
                     length (parent_edges forward (h ! far_end forward edge))
                  then ready_queue g1 @ [far_end forward edge] else ready_queue g1)))"
proof (intro conjI impI allI)
  let ?s0 = "(h, g\<lparr>ready_queue := ready_queue g @ [seed]\<rparr>)"
  let ?vis = "dequeued node_fn forward k ?s0"
  let ?A = "\<Union>n\<in>set ?vis. set (child_edges forward (h ! n))"
  from loop_prefix_inv [OF con acyclic_step_rel [OF acy] seed(2) pres same_topology_refl
      traversal_inv_initial [OF seed(2) idle] run, unfolded append_Nil]
  have inv: "traversal_inv forward h (edges g) seed ?vis ?A gk" by simp
  {
    assume "n \<in> set (ready_queue gk)"
    then show "p \<in> set ?vis"
      using queued_producers_visited [OF con seed(2) inv _ n] by simp
  }
  {
    assume all: "\<forall>p'. (p', n) \<in> step_rel forward h (edges g) \<longrightarrow> p' \<in> set ?vis"
    from n(2) have n_valid: "n < length h" using step_rel_valid [OF con] by blast
    from n(2) obtain e edge where p_valid: "p < length h" and e: "e \<in> set (child_edges forward (h ! p))"
      and edge: "edges g e = Some edge" "near_end forward edge = p" "far_end forward edge = n"
      unfolding step_rel_iff [OF con] by blast
    from child_edge [OF con p_valid e] edge have "e \<in> set (parent_edges forward (h ! n))" by auto
    then have nonempty: "parent_edges forward (h ! n) \<noteq> []" by auto
    have "set (parent_edges forward (h ! n)) \<subseteq> ?A"
    proof
      fix e' assume e': "e' \<in> set (parent_edges forward (h ! n))"
      from parent_edge [OF con n_valid e'] obtain edge' where
        edge': "edges g e' = Some edge'" "far_end forward edge' = n" "near_end forward edge' < length h"
          "e' \<in> set (child_edges forward (h ! near_end forward edge'))"
        by blast
      have "(near_end forward edge', n) \<in> step_rel forward h (edges g)"
        unfolding step_rel_iff [OF con] using edge' by blast
      with all have "near_end forward edge' \<in> set ?vis" by blast
      with edge'(4) show "e' \<in> ?A" by blast
    qed
    with inv n(1) n_valid nonempty show "n \<in> set (?vis @ ready_queue gk)"
      unfolding traversal_inv_def by blast
  }
  {
    fix g1 :: FAO_DAG and e edge
    assume "edges g1 e = Some edge \<and> far_end forward edge < length h"
    then show "\<exists>g2. visit_edge forward h g1 e = Inr g2 \<and>
               eval_map_at (eval_map g2) (far_end forward edge) =
                 eval_map_at (eval_map g1) (far_end forward edge) + 1 \<and>
               ready_queue g2 =
                 (if eval_map_at (eval_map g2) (far_end forward edge) =
                     length (parent_edges forward (h ! far_end forward edge))
                  then ready_queue g1 @ [far_end forward edge] else ready_queue g1)"
      using visit_edge_result [of g1 e edge forward h] by (simp add: eval_map_at_incr)
  }
qed

theorem enqueued_after_all_producers_witness:
  "(\<exists>hk gk. loop_prefix (node_method id) True 1
              (sample_heap, sample_dag\<lparr>ready_queue := ready_queue sample_dag @ [0]\<rparr>) = Inr (hk, gk) \<and>
      (1, 3) \<in> step_rel True sample_heap (edges sample_dag) \<and>
      (0, 1) \<in> step_rel True sample_heap (edges sample_dag) \<and>
      1 \<in> set (ready_queue gk) \<and> 3 \<notin> set (ready_queue gk) \<and>
      0 \<in> set (dequeued (node_method id) True 1
                 (sample_heap, sample_dag\<lparr>ready_queue := ready_queue sample_dag @ [0]\<rparr>)) \<and>
      1 \<notin> set (dequeued (node_method id) True 1
                 (sample_heap, sample_dag\<lparr>ready_queue := ready_queue sample_dag @ [0]\<rparr>)))"
proof -
  let ?s0 = "(sample_heap, sample_dag\<lparr>ready_queue := ready_queue sample_dag @ [0]\<rparr>)"
  have e: "edges sample_dag = sample_edges" by (simp add: sample_dag_def)
  have con: "consistent sample_heap (edges sample_dag)" using sample_consistent by (simp add: e)
  have acy: "acyclic (dag_rel sample_heap (edges sample_dag))" using sample_acyclic by (simp add: e)
  have pres: "preserves_topology (node_method (id :: int FAO \<Rightarrow> int FAO))"
    by (rule node_method_topology) simp
  have idle: "ready_queue sample_dag = []" "eval_map sample_dag = Map.empty"
    by (simp_all add: sample_dag_def)
  have s0: "0 = (if True then start_node sample_dag else end_node sample_dag)" "0 < length sample_heap"
    by (simp_all add: sample_defs)
  have "\<exists>hk gk. loop_prefix (node_method id) True 1 ?s0 = Inr (hk, gk) \<and>
          1 \<in> set (ready_queue gk) \<and> 3 \<notin> set (ready_queue gk)"
    by (simp add: engine_defs sample_defs)
  then obtain hk gk where run: "loop_prefix (node_method id) True 1 ?s0 = Inr (hk, gk)"
    and q: "1 \<in> set (ready_queue gk)" "3 \<notin> set (ready_queue gk)"
    by blast
  have deq: "dequeued (node_method id) True 1 ?s0 = [0]"
    by (simp add: engine_defs sample_defs)
  have st: "(0, 1) \<in> step_rel True sample_heap (edges sample_dag)"
    "(1, 3) \<in> step_rel True sample_heap (edges sample_dag)"
    by (simp_all add: step_rel_def dag_rel_def sample_defs)
  have n: "(1::nat) \<noteq> 0" "(3::nat) \<noteq> 0" by simp_all
  from enqueued_after_all_producers [OF con acy s0 idle pres run n(1) st(1)] q(1)
  have "0 \<in> set (dequeued (node_method id) True 1 ?s0)" by blast
  moreover from enqueued_after_all_producers [OF con acy s0 idle pres run n(2) st(2)] q(2)
  have "1 \<notin> set (dequeued (node_method id) True 1 ?s0)" using deq by simp
  ultimately show ?thesis using run q st by blast
qed

section \<open>The evaluation visitors\<close>

lemma offset_at_touch: "offset_at (offset_touch m e) k = offset_at m k"
  by (simp add: offset_at_def offset_touch_def)

lemma memcpy_slice:
  assumes "vector_subvec_memcpy dst doff src soff len = Inr v"
  shows "slice_copied dst doff src soff len v"
proof -
  from assms have b: "doff + len \<le> length dst" "soff + len \<le> length src"
    and v: "v = take doff dst @ take len (drop soff src) @ drop (doff + len) dst"
    by (auto simp: vector_subvec_memcpy_def split: if_splits)
  have len: "length v = length dst" using b by (simp add: v)
  have mid: "v ! (doff + j) = src ! (soff + j)" if "j < len" for j
    using that b by (simp add: v nth_append)
  have out: "v ! k = dst ! k" if "k < length dst" "k < doff \<or> doff + len \<le> k" for k
  proof (cases "k < doff")
    case True
    with b show ?thesis by (simp add: v nth_append)
  next
    case False
    with that have k: "doff + len \<le> k" by simp
    have pre: "length (take doff dst @ take len (drop soff src)) = doff + len"
      using b by simp
    have "v = (take doff dst @ take len (drop soff src)) @ drop (doff + len) dst"
      by (simp add: v)
    then have "v ! k = drop (doff + len) dst ! (k - (doff + len))"
      using k pre by (simp only: nth_append) simp
    also have "\<dots> = dst ! (doff + len + (k - (doff + len)))"
      using b by (simp only: nth_drop)
    also have "\<dots> = dst ! k" using k by simp
    finally show ?thesis .
  qed
  show ?thesis
    unfolding slice_copied_def using len b mid out by blast
qed

lemma copy_loop_chain:
  "copy_loop step is h = Inr h' \<Longrightarrow>
   \<exists>hs. length hs = Suc (length is) \<and> hs ! 0 = h \<and> last hs = h' \<and>
        (\<forall>k<length is. step (is ! k) (hs ! k) = Inr (hs ! Suc k))"
proof (induction "is" arbitrary: h)
  case Nil
  then show ?case by (intro exI [of _ "[h]"]) simp
next
  case (Cons i rest)
  then obtain h1 where h1: "step i h = Inr h1" "copy_loop step rest h1 = Inr h'"
    by (auto split: sum.splits)
  from Cons.IH [OF h1(2)] obtain hs where
    hs: "length hs = Suc (length rest)" "hs ! 0 = h1" "last hs = h'"
      "\<forall>k<length rest. step (rest ! k) (hs ! k) = Inr (hs ! Suc k)"
    by blast
  have "\<forall>k<length (i # rest). step ((i # rest) ! k) ((h # hs) ! k) = Inr ((h # hs) ! Suc k)"
  proof (intro allI impI)
    fix k assume "k < length (i # rest)"
    then show "step ((i # rest) ! k) ((h # hs) ! k) = Inr ((h # hs) ! Suc k)"
      using h1(1) hs(2,4) by (cases k) simp_all
  qed
  moreover have "last (h # hs) = h'" using hs(1,3) by (cases hs) simp_all
  ultimately show ?case
    using hs(1) by (intro exI [of _ "h # hs"]) simp
qed

subsection \<open>Forward\<close>

lemma forward_copy_cases:
  assumes "forward_copy gel tbl node i h = Inr h'"
  obtains edge v where
    "node < length h" "i < length (output_edges (h ! node))" "i < length (output_sizes (h ! node))"
    "tbl (output_edges (h ! node) ! i) = Some edge" "snd edge < length h"
    "vector_subvec_memcpy (input_data (h ! snd edge))
        (offset_at (input_offsets (h ! snd edge)) (output_edges (h ! node) ! i))
        (output_data (h ! node))
        (offset_at (output_offsets (h ! node)) (output_edges (h ! node) ! i))
        (gel node (output_sizes (h ! node) ! i)) = Inr v"
    "h' = (h[node := (h ! node)\<lparr>output_offsets :=
                offset_touch (output_offsets (h ! node)) (output_edges (h ! node) ! i)\<rparr>])
          [snd edge :=
             (h[node := (h ! node)\<lparr>output_offsets :=
                offset_touch (output_offsets (h ! node)) (output_edges (h ! node) ! i)\<rparr>] ! snd edge)
             \<lparr>input_offsets := offset_touch (input_offsets (h ! snd edge)) (output_edges (h ! node) ! i),
               input_data := v\<rparr>]"
proof -
  from assms have node: "node < length h" and i: "i < length (output_edges (h ! node))"
    by (auto simp: forward_copy_def split: if_splits)
  from assms node i obtain edge where edge: "tbl (output_edges (h ! node) ! i) = Some edge"
    by (cases "tbl (output_edges (h ! node) ! i)") (auto simp: forward_copy_def Let_def)
  from assms node i edge have sz: "i < length (output_sizes (h ! node))" and t: "snd edge < length h"
    by (auto simp: forward_copy_def Let_def split: if_splits)
  have same: "input_offsets (h[node := (h ! node)\<lparr>output_offsets := x\<rparr>] ! snd edge) = input_offsets (h ! snd edge)"
    "input_data (h[node := (h ! node)\<lparr>output_offsets := x\<rparr>] ! snd edge) = input_data (h ! snd edge)" for x
    using node by (simp_all add: nth_list_update)
  from assms node i edge sz t obtain v where
    "vector_subvec_memcpy (input_data (h ! snd edge))
        (offset_at (input_offsets (h ! snd edge)) (output_edges (h ! node) ! i))
        (output_data (h ! node))
        (offset_at (output_offsets (h ! node)) (output_edges (h ! node) ! i))
        (gel node (output_sizes (h ! node) ! i)) = Inr v"
    "h' = (h[node := (h ! node)\<lparr>output_offsets :=
                offset_touch (output_offsets (h ! node)) (output_edges (h ! node) ! i)\<rparr>])
          [snd edge :=
             (h[node := (h ! node)\<lparr>output_offsets :=
                offset_touch (output_offsets (h ! node)) (output_edges (h ! node) ! i)\<rparr>] ! snd edge)
             \<lparr>input_offsets := offset_touch (input_offsets (h ! snd edge)) (output_edges (h ! node) ! i),
               input_data := v\<rparr>]"
    by (auto simp: forward_copy_def Let_def same nth_list_update split: sum.splits if_splits)
  with node i sz edge t show ?thesis by (rule that)
qed

lemma forward_copy_copied:
  assumes "forward_copy gel tbl node i h = Inr h'"
  shows "forward_copied gel tbl node i h h'"
proof -
  from assms obtain edge v where
    c: "node < length h" "tbl (output_edges (h ! node) ! i) = Some edge" "snd edge < length h"
    and m: "vector_subvec_memcpy (input_data (h ! snd edge))
        (offset_at (input_offsets (h ! snd edge)) (output_edges (h ! node) ! i))
        (output_data (h ! node))
        (offset_at (output_offsets (h ! node)) (output_edges (h ! node) ! i))
        (gel node (output_sizes (h ! node) ! i)) = Inr v"
    and h': "h' = (h[node := (h ! node)\<lparr>output_offsets :=
                offset_touch (output_offsets (h ! node)) (output_edges (h ! node) ! i)\<rparr>])
          [snd edge :=
             (h[node := (h ! node)\<lparr>output_offsets :=
                offset_touch (output_offsets (h ! node)) (output_edges (h ! node) ! i)\<rparr>] ! snd edge)
             \<lparr>input_offsets := offset_touch (input_offsets (h ! snd edge)) (output_edges (h ! node) ! i),
               input_data := v\<rparr>]"
    by (rule forward_copy_cases)
  have "input_data (h' ! snd edge) = v" using c by (simp add: h')
  moreover have "length h' = length h" by (simp add: h')
  moreover have "output_data (h' ! n) = output_data (h ! n)" if "n < length h" for n
    using that c by (simp add: h' nth_list_update)
  moreover have "input_data (h' ! n) = input_data (h ! n)" if "n < length h" "n \<noteq> snd edge" for n
    using that c by (simp add: h' nth_list_update)
  ultimately show ?thesis
    unfolding forward_copied_def using c memcpy_slice [OF m] by simp
qed

lemma forward_node_eval_chain:
  assumes "forward_node_eval node_kernel gel tbl node h = Inr h'"
  shows "\<exists>hs. length hs = Suc (length (output_edges (node_kernel node (h ! node)))) \<and>
           hs ! 0 = h[node := node_kernel node (h ! node)] \<and> last hs = h' \<and>
           (\<forall>i<length (output_edges (node_kernel node (h ! node))).
              forward_copied gel tbl node i (hs ! i) (hs ! Suc i))"
proof -
  let ?h1 = "h[node := node_kernel node (h ! node)]"
  let ?n = "length (output_edges (node_kernel node (h ! node)))"
  from assms have node: "node < length h"
    by (auto simp: forward_node_eval_def split: if_splits)
  with assms have "copy_loop (forward_copy gel tbl node) [0..<?n] ?h1 = Inr h'"
    by (simp add: forward_node_eval_def Let_def)
  from copy_loop_chain [OF this] obtain hs where
    hs: "length hs = Suc ?n" "hs ! 0 = ?h1" "last hs = h'"
      "\<forall>k<?n. forward_copy gel tbl node ([0..<?n] ! k) (hs ! k) = Inr (hs ! Suc k)"
    by auto
  have "forward_copied gel tbl node i (hs ! i) (hs ! Suc i)" if "i < ?n" for i
    using hs(4) that by (auto intro: forward_copy_copied)
  with hs(1-3) show ?thesis by blast
qed

lemma forward_copy_ignores_input_sizes:
  "forward_copy gel tbl node i (h[t := (h ! t)\<lparr>input_sizes := sz\<rparr>]) =
     (case forward_copy gel tbl node i h of
        Inl err \<Rightarrow> Inl err
      | Inr h' \<Rightarrow> Inr (h'[t := (h' ! t)\<lparr>input_sizes := sz\<rparr>]))"
proof (cases "t < length h")
  case False
  then have "length h \<le> t" by simp
  then have same: "h[t := x] = h" for x by (rule list_update_beyond)
  show ?thesis
  proof (cases "forward_copy gel tbl node i h")
    case (Inl err)
    then show ?thesis by (simp add: same)
  next
    case (Inr h')
    from forward_copy_copied [OF Inr] have "length h' = length h"
      by (auto simp: forward_copied_def split: option.splits)
    with False have "length h' \<le> t" by simp
    then have "h'[t := x] = h'" for x by (rule list_update_beyond)
    with Inr show ?thesis by (simp add: same)
  qed
next
  case True
  let ?h = "h[t := (h ! t)\<lparr>input_sizes := sz\<rparr>]"
  have f: "output_edges (?h ! n) = output_edges (h ! n)" "output_sizes (?h ! n) = output_sizes (h ! n)"
    "output_offsets (?h ! n) = output_offsets (h ! n)" "input_offsets (?h ! n) = input_offsets (h ! n)"
    "input_data (?h ! n) = input_data (h ! n)" "output_data (?h ! n) = output_data (h ! n)" for n
    using True by (simp_all add: nth_list_update)
  show ?thesis
    unfolding forward_copy_def Let_def
    by (auto simp: f nth_list_update list_update_swap True split: option.splits sum.splits
             intro!: nth_equalityI)
qed

subsection \<open>Adjoint\<close>

lemma adjoint_copy_cases:
  assumes "adjoint_copy gel tbl node i h = Inr h'"
  obtains edge v where
    "node < length h" "i < length (input_edges (h ! node))" "i < length (input_sizes (h ! node))"
    "tbl (input_edges (h ! node) ! i) = Some edge" "fst edge < length h"
    "vector_subvec_memcpy (output_data (h ! fst edge))
        (offset_at (output_offsets (h ! fst edge)) (input_edges (h ! node) ! i))
        (input_data (h ! node))
        (offset_at (input_offsets (h ! node)) (input_edges (h ! node) ! i))
        (gel node (input_sizes (h ! node) ! i)) = Inr v"
    "h' = (h[node := (h ! node)\<lparr>input_offsets :=
                offset_touch (input_offsets (h ! node)) (input_edges (h ! node) ! i)\<rparr>])
          [fst edge :=
             (h[node := (h ! node)\<lparr>input_offsets :=
                offset_touch (input_offsets (h ! node)) (input_edges (h ! node) ! i)\<rparr>] ! fst edge)
             \<lparr>output_offsets := offset_touch (output_offsets (h ! fst edge)) (input_edges (h ! node) ! i),
               output_data := v\<rparr>]"
proof -
  from assms have node: "node < length h" and i: "i < length (input_edges (h ! node))"
    by (auto simp: adjoint_copy_def split: if_splits)
  from assms node i obtain edge where edge: "tbl (input_edges (h ! node) ! i) = Some edge"
    by (cases "tbl (input_edges (h ! node) ! i)") (auto simp: adjoint_copy_def Let_def)
  from assms node i edge have sz: "i < length (input_sizes (h ! node))" and t: "fst edge < length h"
    by (auto simp: adjoint_copy_def Let_def split: if_splits)
  have same: "output_offsets (h[node := (h ! node)\<lparr>input_offsets := x\<rparr>] ! fst edge) = output_offsets (h ! fst edge)"
    "output_data (h[node := (h ! node)\<lparr>input_offsets := x\<rparr>] ! fst edge) = output_data (h ! fst edge)" for x
    using node by (simp_all add: nth_list_update)
  from assms node i edge sz t obtain v where
    "vector_subvec_memcpy (output_data (h ! fst edge))
        (offset_at (output_offsets (h ! fst edge)) (input_edges (h ! node) ! i))
        (input_data (h ! node))
        (offset_at (input_offsets (h ! node)) (input_edges (h ! node) ! i))
        (gel node (input_sizes (h ! node) ! i)) = Inr v"
    "h' = (h[node := (h ! node)\<lparr>input_offsets :=
                offset_touch (input_offsets (h ! node)) (input_edges (h ! node) ! i)\<rparr>])
          [fst edge :=
             (h[node := (h ! node)\<lparr>input_offsets :=
                offset_touch (input_offsets (h ! node)) (input_edges (h ! node) ! i)\<rparr>] ! fst edge)
             \<lparr>output_offsets := offset_touch (output_offsets (h ! fst edge)) (input_edges (h ! node) ! i),
               output_data := v\<rparr>]"
    by (auto simp: adjoint_copy_def Let_def same nth_list_update split: sum.splits if_splits)
  with node i sz edge t show ?thesis by (rule that)
qed

lemma adjoint_copy_copied:
  assumes "adjoint_copy gel tbl node i h = Inr h'"
  shows "adjoint_copied gel tbl node i h h'"
proof -
  from assms obtain edge v where
    c: "node < length h" "tbl (input_edges (h ! node) ! i) = Some edge" "fst edge < length h"
    and m: "vector_subvec_memcpy (output_data (h ! fst edge))
        (offset_at (output_offsets (h ! fst edge)) (input_edges (h ! node) ! i))
        (input_data (h ! node))
        (offset_at (input_offsets (h ! node)) (input_edges (h ! node) ! i))
        (gel node (input_sizes (h ! node) ! i)) = Inr v"
    and h': "h' = (h[node := (h ! node)\<lparr>input_offsets :=
                offset_touch (input_offsets (h ! node)) (input_edges (h ! node) ! i)\<rparr>])
          [fst edge :=
             (h[node := (h ! node)\<lparr>input_offsets :=
                offset_touch (input_offsets (h ! node)) (input_edges (h ! node) ! i)\<rparr>] ! fst edge)
             \<lparr>output_offsets := offset_touch (output_offsets (h ! fst edge)) (input_edges (h ! node) ! i),
               output_data := v\<rparr>]"
    by (rule adjoint_copy_cases)
  have "output_data (h' ! fst edge) = v" using c by (simp add: h')
  moreover have "length h' = length h" by (simp add: h')
  moreover have "input_data (h' ! n) = input_data (h ! n)" if "n < length h" for n
    using that c by (simp add: h' nth_list_update)
  moreover have "output_data (h' ! n) = output_data (h ! n)" if "n < length h" "n \<noteq> fst edge" for n
    using that c by (simp add: h' nth_list_update)
  ultimately show ?thesis
    unfolding adjoint_copied_def using c memcpy_slice [OF m] by simp
qed

lemma adjoint_node_eval_chain:
  assumes "adjoint_node_eval node_kernel gel tbl node h = Inr h'"
  shows "\<exists>hs. length hs = Suc (length (input_edges (node_kernel node (h ! node)))) \<and>
           hs ! 0 = h[node := node_kernel node (h ! node)] \<and> last hs = h' \<and>
           (\<forall>i<length (input_edges (node_kernel node (h ! node))).
              adjoint_copied gel tbl node i (hs ! i) (hs ! Suc i))"
proof -
  let ?h1 = "h[node := node_kernel node (h ! node)]"
  let ?n = "length (input_edges (node_kernel node (h ! node)))"
  from assms have node: "node < length h"
    by (auto simp: adjoint_node_eval_def split: if_splits)
  with assms have "copy_loop (adjoint_copy gel tbl node) [0..<?n] ?h1 = Inr h'"
    by (simp add: adjoint_node_eval_def Let_def)
  from copy_loop_chain [OF this] obtain hs where
    hs: "length hs = Suc ?n" "hs ! 0 = ?h1" "last hs = h'"
      "\<forall>k<?n. adjoint_copy gel tbl node ([0..<?n] ! k) (hs ! k) = Inr (hs ! Suc k)"
    by auto
  have "adjoint_copied gel tbl node i (hs ! i) (hs ! Suc i)" if "i < ?n" for i
    using hs(4) that by (auto intro: adjoint_copy_copied)
  with hs(1-3) show ?thesis by blast
qed

lemma adjoint_copy_ignores_output_sizes:
  "adjoint_copy gel tbl node i (h[t := (h ! t)\<lparr>output_sizes := sz\<rparr>]) =
     (case adjoint_copy gel tbl node i h of
        Inl err \<Rightarrow> Inl err
      | Inr h' \<Rightarrow> Inr (h'[t := (h' ! t)\<lparr>output_sizes := sz\<rparr>]))"
proof (cases "t < length h")
  case False
  then have "length h \<le> t" by simp
  then have same: "h[t := x] = h" for x by (rule list_update_beyond)
  show ?thesis
  proof (cases "adjoint_copy gel tbl node i h")
    case (Inl err)
    then show ?thesis by (simp add: same)
  next
    case (Inr h')
    from adjoint_copy_copied [OF Inr] have "length h' = length h"
      by (auto simp: adjoint_copied_def split: option.splits)
    with False have "length h' \<le> t" by simp
    then have "h'[t := x] = h'" for x by (rule list_update_beyond)
    with Inr show ?thesis by (simp add: same)
  qed
next
  case True
  let ?h = "h[t := (h ! t)\<lparr>output_sizes := sz\<rparr>]"
  have f: "input_edges (?h ! n) = input_edges (h ! n)" "input_sizes (?h ! n) = input_sizes (h ! n)"
    "input_offsets (?h ! n) = input_offsets (h ! n)" "output_offsets (?h ! n) = output_offsets (h ! n)"
    "output_data (?h ! n) = output_data (h ! n)" "input_data (?h ! n) = input_data (h ! n)" for n
    using True by (simp_all add: nth_list_update)
  show ?thesis
    unfolding adjoint_copy_def Let_def
    by (auto simp: f nth_list_update list_update_swap True split: option.splits sum.splits
             intro!: nth_equalityI)
qed

subsection \<open>The shape of the heap during the copy loop\<close>

text \<open>A copy changes buffer content and may record an offset that reads as before; so every heap of the loop has the shape of the first.\<close>

lemma same_shape_refl: "same_shape h h"
  by (simp add: same_shape_def)

lemma same_shape_trans: "same_shape h h1 \<Longrightarrow> same_shape h1 h2 \<Longrightarrow> same_shape h h2"
  by (simp add: same_shape_def)

lemma forward_copy_shape:
  assumes "forward_copy gel tbl node i h = Inr h'"
  shows "same_shape h h'"
proof -
  from assms obtain edge :: "nat \<times> nat" and v where
    c: "node < length h" "snd edge < length h"
    and h': "h' = (h[node := (h ! node)\<lparr>output_offsets :=
                offset_touch (output_offsets (h ! node)) (output_edges (h ! node) ! i)\<rparr>])
          [snd edge :=
             (h[node := (h ! node)\<lparr>output_offsets :=
                offset_touch (output_offsets (h ! node)) (output_edges (h ! node) ! i)\<rparr>] ! snd edge)
             \<lparr>input_offsets := offset_touch (input_offsets (h ! snd edge)) (output_edges (h ! node) ! i),
               input_data := v\<rparr>]"
    by (rule forward_copy_cases)
  show ?thesis
    unfolding same_shape_def h'
    using c by (auto simp: nth_list_update offset_at_touch)
qed

lemma adjoint_copy_shape:
  assumes "adjoint_copy gel tbl node i h = Inr h'"
  shows "same_shape h h'"
proof -
  from assms obtain edge :: "nat \<times> nat" and v where
    c: "node < length h" "fst edge < length h"
    and h': "h' = (h[node := (h ! node)\<lparr>input_offsets :=
                offset_touch (input_offsets (h ! node)) (input_edges (h ! node) ! i)\<rparr>])
          [fst edge :=
             (h[node := (h ! node)\<lparr>input_offsets :=
                offset_touch (input_offsets (h ! node)) (input_edges (h ! node) ! i)\<rparr>] ! fst edge)
             \<lparr>output_offsets := offset_touch (output_offsets (h ! fst edge)) (input_edges (h ! node) ! i),
               output_data := v\<rparr>]"
    by (rule adjoint_copy_cases)
  show ?thesis
    unfolding same_shape_def h'
    using c by (auto simp: nth_list_update offset_at_touch)
qed

lemma copy_steps_shape:
  assumes step: "\<And>k. k < m \<Longrightarrow> same_shape (hs ! k) (hs ! Suc k)"
  shows "i \<le> m \<Longrightarrow> same_shape (hs ! 0) (hs ! i)"
proof (induction i)
  case 0
  show ?case by (rule same_shape_refl)
next
  case (Suc i)
  then have "same_shape (hs ! 0) (hs ! i)" "same_shape (hs ! i) (hs ! Suc i)"
    using step [of i] by simp_all
  then show ?case by (rule same_shape_trans)
qed

lemma forward_node_eval_steps:
  assumes "forward_node_eval node_kernel gel tbl node h = Inr h'"
  shows "\<exists>hs. length hs = Suc (length (output_edges (node_kernel node (h ! node)))) \<and>
           hs ! 0 = h[node := node_kernel node (h ! node)] \<and> last hs = h' \<and>
           (\<forall>i<length hs. same_shape (hs ! 0) (hs ! i)) \<and>
           (\<forall>i<length (output_edges (node_kernel node (h ! node))).
              forward_copied gel tbl node i (hs ! i) (hs ! Suc i))"
proof -
  let ?h1 = "h[node := node_kernel node (h ! node)]"
  let ?n = "length (output_edges (node_kernel node (h ! node)))"
  from assms have node: "node < length h"
    by (auto simp: forward_node_eval_def split: if_splits)
  with assms have "copy_loop (forward_copy gel tbl node) [0..<?n] ?h1 = Inr h'"
    by (simp add: forward_node_eval_def Let_def)
  from copy_loop_chain [OF this] obtain hs where
    hs: "length hs = Suc ?n" "hs ! 0 = ?h1" "last hs = h'"
      "\<forall>k<?n. forward_copy gel tbl node ([0..<?n] ! k) (hs ! k) = Inr (hs ! Suc k)"
    by auto
  have step: "forward_copy gel tbl node i (hs ! i) = Inr (hs ! Suc i)" if "i < ?n" for i
    using hs(4) that by auto
  have "forward_copied gel tbl node i (hs ! i) (hs ! Suc i)" if "i < ?n" for i
    using step [OF that] by (rule forward_copy_copied)
  moreover have "same_shape (hs ! 0) (hs ! i)" if "i < length hs" for i
  proof (rule copy_steps_shape [where m = ?n])
    show "same_shape (hs ! k) (hs ! Suc k)" if "k < ?n" for k
      using step [OF that] by (rule forward_copy_shape)
    show "i \<le> ?n" using that hs(1) by simp
  qed
  ultimately show ?thesis using hs(1-3) by blast
qed

lemma adjoint_node_eval_steps:
  assumes "adjoint_node_eval node_kernel gel tbl node h = Inr h'"
  shows "\<exists>hs. length hs = Suc (length (input_edges (node_kernel node (h ! node)))) \<and>
           hs ! 0 = h[node := node_kernel node (h ! node)] \<and> last hs = h' \<and>
           (\<forall>i<length hs. same_shape (hs ! 0) (hs ! i)) \<and>
           (\<forall>i<length (input_edges (node_kernel node (h ! node))).
              adjoint_copied gel tbl node i (hs ! i) (hs ! Suc i))"
proof -
  let ?h1 = "h[node := node_kernel node (h ! node)]"
  let ?n = "length (input_edges (node_kernel node (h ! node)))"
  from assms have node: "node < length h"
    by (auto simp: adjoint_node_eval_def split: if_splits)
  with assms have "copy_loop (adjoint_copy gel tbl node) [0..<?n] ?h1 = Inr h'"
    by (simp add: adjoint_node_eval_def Let_def)
  from copy_loop_chain [OF this] obtain hs where
    hs: "length hs = Suc ?n" "hs ! 0 = ?h1" "last hs = h'"
      "\<forall>k<?n. adjoint_copy gel tbl node ([0..<?n] ! k) (hs ! k) = Inr (hs ! Suc k)"
    by auto
  have step: "adjoint_copy gel tbl node i (hs ! i) = Inr (hs ! Suc i)" if "i < ?n" for i
    using hs(4) that by auto
  have "adjoint_copied gel tbl node i (hs ! i) (hs ! Suc i)" if "i < ?n" for i
    using step [OF that] by (rule adjoint_copy_copied)
  moreover have "same_shape (hs ! 0) (hs ! i)" if "i < length hs" for i
  proof (rule copy_steps_shape [where m = ?n])
    show "same_shape (hs ! k) (hs ! Suc k)" if "k < ?n" for k
      using step [OF that] by (rule adjoint_copy_shape)
    show "i \<le> ?n" using that hs(1) by simp
  qed
  ultimately show ?thesis using hs(1-3) by blast
qed

lemma Inr_caseD:
  "(case r of Inl err \<Rightarrow> False | Inr x \<Rightarrow> P x) \<Longrightarrow> \<exists>x. r = Inr x \<and> P x"
  by (cases r) simp_all


lemma forward_copy_range:
  assumes "forward_copy gel tbl node i h = Inr h'" "tbl (output_edges (h ! node) ! i) = Some (s, d)"
  shows "rc = gel node (output_sizes (h ! node) ! i) \<Longrightarrow> k < length (input_data (h ! d)) \<Longrightarrow>
           k < offset_at (input_offsets (h ! d)) (output_edges (h ! node) ! i) \<or>
           offset_at (input_offsets (h ! d)) (output_edges (h ! node) ! i) + rc \<le> k \<Longrightarrow>
           input_data (h' ! d) ! k = input_data (h ! d) ! k"
    and "rc < gel node (output_sizes (h ! node) ! i) \<Longrightarrow>
           input_data (h' ! d) ! (offset_at (input_offsets (h ! d)) (output_edges (h ! node) ! i) + rc) =
           output_data (h ! node) ! (offset_at (output_offsets (h ! node)) (output_edges (h ! node) ! i) + rc)"
  using forward_copy_copied [OF assms(1)] assms(2)
  by (auto simp: forward_copied_def slice_copied_def)

lemma adjoint_copy_range:
  assumes "adjoint_copy gel tbl node i h = Inr h'" "tbl (input_edges (h ! node) ! i) = Some (s, d)"
  shows "rc = gel node (input_sizes (h ! node) ! i) \<Longrightarrow> k < length (output_data (h ! s)) \<Longrightarrow>
           k < offset_at (output_offsets (h ! s)) (input_edges (h ! node) ! i) \<or>
           offset_at (output_offsets (h ! s)) (input_edges (h ! node) ! i) + rc \<le> k \<Longrightarrow>
           output_data (h' ! s) ! k = output_data (h ! s) ! k"
    and "rc < gel node (input_sizes (h ! node) ! i) \<Longrightarrow>
           output_data (h' ! s) ! (offset_at (output_offsets (h ! s)) (input_edges (h ! node) ! i) + rc) =
           input_data (h ! node) ! (offset_at (input_offsets (h ! node)) (input_edges (h ! node) ! i) + rc)"
  using adjoint_copy_copied [OF assms(1)] assms(2)
  by (auto simp: adjoint_copied_def slice_copied_def)


text \<open>
  C3. The evaluation visitor runs the node's kernel and then, for the positions of the
  node's edge list in turn (output edges forward, input edges in the adjoint pass), makes
  one copy each. The heaps before and after each copy form a list \<open>hs\<close> that starts
  with the heap the kernel leaves and ends with the visitor's result. Every heap of the
  list has the edge lists, declared shapes and offset readings of the first, so the copy
  at position \<open>i\<close> is the copy for the \<open>i\<close>-th edge of the node's own list: as many
  scalars as the element count of the node's declared shape at that position, from the
  node's own buffer at its offset for the edge, into the buffer of the edge's far end at
  the far end's offset for the same edge id: the destination's input buffer forward, the
  source's output buffer in the adjoint pass. Each copy leaves every other buffer position
  as it was.
\<close>

theorem evaluation_visitor_copies_each_edge:
  "(forward_node_eval node_kernel gel tbl node h = Inr h' \<longrightarrow>
      (\<exists>hs. length hs = Suc (length (output_edges (node_kernel node (h ! node)))) \<and>
            hs ! 0 = h[node := node_kernel node (h ! node)] \<and> last hs = h' \<and>
            (\<forall>i<length hs. same_shape (hs ! 0) (hs ! i)) \<and>
            (\<forall>i<length (output_edges (node_kernel node (h ! node))).
               forward_copied gel tbl node i (hs ! i) (hs ! Suc i)))) \<and>
   (adjoint_node_eval node_kernel gel tbl node h = Inr h' \<longrightarrow>
      (\<exists>hs. length hs = Suc (length (input_edges (node_kernel node (h ! node)))) \<and>
            hs ! 0 = h[node := node_kernel node (h ! node)] \<and> last hs = h' \<and>
            (\<forall>i<length hs. same_shape (hs ! 0) (hs ! i)) \<and>
            (\<forall>i<length (input_edges (node_kernel node (h ! node))).
               adjoint_copied gel tbl node i (hs ! i) (hs ! Suc i))))"
  using forward_node_eval_steps [of node_kernel gel tbl node h h']
    adjoint_node_eval_steps [of node_kernel gel tbl node h h']
  by blast

theorem evaluation_visitor_copies_each_edge_witness:
  "\<exists>h1 h2.
     forward_node_eval sample_forward_kernel sample_elem_length sample_edges 0 sample_heap = Inr h1 \<and>
     map input_data h1 = [[5], [5], [5], [0, 0]] \<and>
     (\<exists>hs. length hs = 3 \<and> last hs = h1 \<and>
        hs ! 0 = sample_heap[0 := sample_forward_kernel 0 (sample_heap ! 0)] \<and>
        same_shape (hs ! 0) (hs ! 1) \<and> same_shape (hs ! 0) (hs ! 2) \<and>
        forward_copied sample_elem_length sample_edges 0 0 (hs ! 0) (hs ! 1) \<and>
        forward_copied sample_elem_length sample_edges 0 1 (hs ! 1) (hs ! 2)) \<and>
     adjoint_node_eval sample_adjoint_kernel sample_elem_length sample_edges 3
       (sample_heap[3 := (sample_heap ! 3)\<lparr>output_data := [7]\<rparr>]) = Inr h2 \<and>
     map output_data h2 = [[0, 0], [7], [7], [7]] \<and>
     (\<exists>hs. length hs = 3 \<and> last hs = h2 \<and>
        hs ! 0 = (sample_heap[3 := (sample_heap ! 3)\<lparr>output_data := [7]\<rparr>])
                   [3 := sample_adjoint_kernel 3 (sample_heap[3 := (sample_heap ! 3)\<lparr>output_data := [7]\<rparr>] ! 3)] \<and>
        same_shape (hs ! 0) (hs ! 1) \<and> same_shape (hs ! 0) (hs ! 2) \<and>
        adjoint_copied sample_elem_length sample_edges 3 0 (hs ! 0) (hs ! 1) \<and>
        adjoint_copied sample_elem_length sample_edges 3 1 (hs ! 1) (hs ! 2))"
proof -
  let ?h3 = "sample_heap[3 := (sample_heap ! 3)\<lparr>output_data := [7]\<rparr>]"
  have "case forward_node_eval sample_forward_kernel sample_elem_length sample_edges 0 sample_heap of
          Inl err \<Rightarrow> False | Inr h1 \<Rightarrow> map input_data h1 = [[5], [5], [5], [0, 0]]"
    by code_simp
  from Inr_caseD [OF this] obtain h1 where h1:
    "forward_node_eval sample_forward_kernel sample_elem_length sample_edges 0 sample_heap = Inr h1"
    "map input_data h1 = [[5], [5], [5], [0, 0]]" by (elim exE conjE)
  have "case adjoint_node_eval sample_adjoint_kernel sample_elem_length sample_edges 3 ?h3 of
          Inl err \<Rightarrow> False | Inr h2 \<Rightarrow> map output_data h2 = [[0, 0], [7], [7], [7]]"
    by code_simp
  from Inr_caseD [OF this] obtain h2 where h2:
    "adjoint_node_eval sample_adjoint_kernel sample_elem_length sample_edges 3 ?h3 = Inr h2"
    "map output_data h2 = [[0, 0], [7], [7], [7]]" by (elim exE conjE)
  have n1: "length (output_edges (sample_forward_kernel 0 (sample_heap ! 0))) = 2"
    by code_simp
  have n2: "length (input_edges (sample_adjoint_kernel 3 (?h3 ! 3))) = 2"
    by code_simp
  from evaluation_visitor_copies_each_edge
    [of sample_forward_kernel sample_elem_length sample_edges 0 sample_heap h1] h1(1) n1
  obtain hs1 where hs1: "length hs1 = 3" "last hs1 = h1"
    "hs1 ! 0 = sample_heap[0 := sample_forward_kernel 0 (sample_heap ! 0)]"
    "\<forall>i<3. same_shape (hs1 ! 0) (hs1 ! i)"
    "\<forall>i<2. forward_copied sample_elem_length sample_edges 0 i (hs1 ! i) (hs1 ! Suc i)"
    by auto
  from evaluation_visitor_copies_each_edge
    [of sample_adjoint_kernel sample_elem_length sample_edges 3 ?h3 h2] h2(1) n2
  obtain hs2 where hs2: "length hs2 = 3" "last hs2 = h2"
    "hs2 ! 0 = ?h3[3 := sample_adjoint_kernel 3 (?h3 ! 3)]"
    "\<forall>i<3. same_shape (hs2 ! 0) (hs2 ! i)"
    "\<forall>i<2. adjoint_copied sample_elem_length sample_edges 3 i (hs2 ! i) (hs2 ! Suc i)"
    by auto
  from hs1(4) have s1: "same_shape (hs1 ! 0) (hs1 ! 1)" "same_shape (hs1 ! 0) (hs1 ! 2)"
    by simp_all
  from hs2(4) have s2: "same_shape (hs2 ! 0) (hs2 ! 1)" "same_shape (hs2 ! 0) (hs2 ! 2)"
    by simp_all
  from hs1(5) have f: "forward_copied sample_elem_length sample_edges 0 0 (hs1 ! 0) (hs1 ! 1)"
    "forward_copied sample_elem_length sample_edges 0 1 (hs1 ! 1) (hs1 ! 2)"
    by (simp_all add: numeral_2_eq_2 All_less_Suc)
  from hs2(5) have a: "adjoint_copied sample_elem_length sample_edges 3 0 (hs2 ! 0) (hs2 ! 1)"
    "adjoint_copied sample_elem_length sample_edges 3 1 (hs2 ! 1) (hs2 ! 2)"
    by (simp_all add: numeral_2_eq_2 All_less_Suc)
  have A: "\<exists>hs. length hs = 3 \<and> last hs = h1 \<and>
        hs ! 0 = sample_heap[0 := sample_forward_kernel 0 (sample_heap ! 0)] \<and>
        same_shape (hs ! 0) (hs ! 1) \<and> same_shape (hs ! 0) (hs ! 2) \<and>
        forward_copied sample_elem_length sample_edges 0 0 (hs ! 0) (hs ! 1) \<and>
        forward_copied sample_elem_length sample_edges 0 1 (hs ! 1) (hs ! 2)"
    by (intro exI [of _ hs1] conjI) (rule hs1 s1 f)+
  have B: "\<exists>hs. length hs = 3 \<and> last hs = h2 \<and>
        hs ! 0 = ?h3[3 := sample_adjoint_kernel 3 (?h3 ! 3)] \<and>
        same_shape (hs ! 0) (hs ! 1) \<and> same_shape (hs ! 0) (hs ! 2) \<and>
        adjoint_copied sample_elem_length sample_edges 3 0 (hs ! 0) (hs ! 1) \<and>
        adjoint_copied sample_elem_length sample_edges 3 1 (hs ! 1) (hs ! 2)"
    by (intro exI [of _ hs2] conjI) (rule hs2 s2 a)+
  show ?thesis
    by (intro exI [of _ h1] exI [of _ h2] conjI) (rule h1 h2 A B)+
qed

text \<open>
  C10. The receiver's declared shapes have no influence on a copy: with any other input
  sizes (output sizes in the adjoint pass) at any node the copy does the same. The number
  of scalars copied is the sender's element count for the edge. When the receiver
  declares the same count, nothing outside the receiver's range for the edge changes;
  when it declares less, the position right after its range receives the sender's value.
\<close>

theorem copy_length_from_sender_only:
  "forward_copy gel tbl node i (h[t := (h ! t)\<lparr>input_sizes := sz\<rparr>]) =
     (case forward_copy gel tbl node i h of
        Inl err \<Rightarrow> Inl err
      | Inr h' \<Rightarrow> Inr (h'[t := (h' ! t)\<lparr>input_sizes := sz\<rparr>])) \<and>
   adjoint_copy gel tbl node i (h[t := (h ! t)\<lparr>output_sizes := sz\<rparr>]) =
     (case adjoint_copy gel tbl node i h of
        Inl err \<Rightarrow> Inl err
      | Inr h' \<Rightarrow> Inr (h'[t := (h' ! t)\<lparr>output_sizes := sz\<rparr>])) \<and>
   (forward_copy gel tbl node i h = Inr h1 \<and> tbl (output_edges (h ! node) ! i) = Some (s, d) \<and>
    input_edges (h ! d) ! j = output_edges (h ! node) ! i \<longrightarrow>
      (gel d (input_sizes (h ! d) ! j) = gel node (output_sizes (h ! node) ! i) \<longrightarrow>
         (\<forall>k<length (input_data (h ! d)).
            k < offset_at (input_offsets (h ! d)) (output_edges (h ! node) ! i) \<or>
            offset_at (input_offsets (h ! d)) (output_edges (h ! node) ! i) + gel d (input_sizes (h ! d) ! j) \<le> k \<longrightarrow>
            input_data (h1 ! d) ! k = input_data (h ! d) ! k)) \<and>
      (gel d (input_sizes (h ! d) ! j) < gel node (output_sizes (h ! node) ! i) \<longrightarrow>
         input_data (h1 ! d) !
           (offset_at (input_offsets (h ! d)) (output_edges (h ! node) ! i) + gel d (input_sizes (h ! d) ! j)) =
         output_data (h ! node) !
           (offset_at (output_offsets (h ! node)) (output_edges (h ! node) ! i) + gel d (input_sizes (h ! d) ! j)))) \<and>
   (adjoint_copy gel tbl node i h = Inr h2 \<and> tbl (input_edges (h ! node) ! i) = Some (s, d) \<and>
    output_edges (h ! s) ! j = input_edges (h ! node) ! i \<longrightarrow>
      (gel s (output_sizes (h ! s) ! j) = gel node (input_sizes (h ! node) ! i) \<longrightarrow>
         (\<forall>k<length (output_data (h ! s)).
            k < offset_at (output_offsets (h ! s)) (input_edges (h ! node) ! i) \<or>
            offset_at (output_offsets (h ! s)) (input_edges (h ! node) ! i) + gel s (output_sizes (h ! s) ! j) \<le> k \<longrightarrow>
            output_data (h2 ! s) ! k = output_data (h ! s) ! k)) \<and>
      (gel s (output_sizes (h ! s) ! j) < gel node (input_sizes (h ! node) ! i) \<longrightarrow>
         output_data (h2 ! s) !
           (offset_at (output_offsets (h ! s)) (input_edges (h ! node) ! i) + gel s (output_sizes (h ! s) ! j)) =
         input_data (h ! node) !
           (offset_at (input_offsets (h ! node)) (input_edges (h ! node) ! i) + gel s (output_sizes (h ! s) ! j))))"
proof (intro conjI impI allI)
  show "forward_copy gel tbl node i (h[t := (h ! t)\<lparr>input_sizes := sz\<rparr>]) =
     (case forward_copy gel tbl node i h of
        Inl err \<Rightarrow> Inl err
      | Inr h' \<Rightarrow> Inr (h'[t := (h' ! t)\<lparr>input_sizes := sz\<rparr>]))"
    by (rule forward_copy_ignores_input_sizes)
  show "adjoint_copy gel tbl node i (h[t := (h ! t)\<lparr>output_sizes := sz\<rparr>]) =
     (case adjoint_copy gel tbl node i h of
        Inl err \<Rightarrow> Inl err
      | Inr h' \<Rightarrow> Inr (h'[t := (h' ! t)\<lparr>output_sizes := sz\<rparr>]))"
    by (rule adjoint_copy_ignores_output_sizes)
next
  fix k
  assume a: "forward_copy gel tbl node i h = Inr h1 \<and> tbl (output_edges (h ! node) ! i) = Some (s, d) \<and>
    input_edges (h ! d) ! j = output_edges (h ! node) ! i"
    and eq: "gel d (input_sizes (h ! d) ! j) = gel node (output_sizes (h ! node) ! i)"
    and k: "k < length (input_data (h ! d))"
      "k < offset_at (input_offsets (h ! d)) (output_edges (h ! node) ! i) \<or>
       offset_at (input_offsets (h ! d)) (output_edges (h ! node) ! i) + gel d (input_sizes (h ! d) ! j) \<le> k"
  from a have f: "forward_copy gel tbl node i h = Inr h1" "tbl (output_edges (h ! node) ! i) = Some (s, d)"
    by simp_all
  from forward_copy_range(1) [OF f eq k] show "input_data (h1 ! d) ! k = input_data (h ! d) ! k" .
next
  assume a: "forward_copy gel tbl node i h = Inr h1 \<and> tbl (output_edges (h ! node) ! i) = Some (s, d) \<and>
    input_edges (h ! d) ! j = output_edges (h ! node) ! i"
    and lt: "gel d (input_sizes (h ! d) ! j) < gel node (output_sizes (h ! node) ! i)"
  from a have f: "forward_copy gel tbl node i h = Inr h1" "tbl (output_edges (h ! node) ! i) = Some (s, d)"
    by simp_all
  from forward_copy_range(2) [OF f lt]
  show "input_data (h1 ! d) !
           (offset_at (input_offsets (h ! d)) (output_edges (h ! node) ! i) + gel d (input_sizes (h ! d) ! j)) =
         output_data (h ! node) !
           (offset_at (output_offsets (h ! node)) (output_edges (h ! node) ! i) + gel d (input_sizes (h ! d) ! j))" .
next
  fix k
  assume a: "adjoint_copy gel tbl node i h = Inr h2 \<and> tbl (input_edges (h ! node) ! i) = Some (s, d) \<and>
    output_edges (h ! s) ! j = input_edges (h ! node) ! i"
    and eq: "gel s (output_sizes (h ! s) ! j) = gel node (input_sizes (h ! node) ! i)"
    and k: "k < length (output_data (h ! s))"
      "k < offset_at (output_offsets (h ! s)) (input_edges (h ! node) ! i) \<or>
       offset_at (output_offsets (h ! s)) (input_edges (h ! node) ! i) + gel s (output_sizes (h ! s) ! j) \<le> k"
  from a have f: "adjoint_copy gel tbl node i h = Inr h2" "tbl (input_edges (h ! node) ! i) = Some (s, d)"
    by simp_all
  from adjoint_copy_range(1) [OF f eq k] show "output_data (h2 ! s) ! k = output_data (h ! s) ! k" .
next
  assume a: "adjoint_copy gel tbl node i h = Inr h2 \<and> tbl (input_edges (h ! node) ! i) = Some (s, d) \<and>
    output_edges (h ! s) ! j = input_edges (h ! node) ! i"
    and lt: "gel s (output_sizes (h ! s) ! j) < gel node (input_sizes (h ! node) ! i)"
  from a have f: "adjoint_copy gel tbl node i h = Inr h2" "tbl (input_edges (h ! node) ! i) = Some (s, d)"
    by simp_all
  from adjoint_copy_range(2) [OF f lt]
  show "output_data (h2 ! s) !
           (offset_at (output_offsets (h ! s)) (input_edges (h ! node) ! i) + gel s (output_sizes (h ! s) ! j)) =
         input_data (h ! node) !
           (offset_at (input_offsets (h ! node)) (input_edges (h ! node) ! i) + gel s (output_sizes (h ! s) ! j))" .
qed

theorem copy_length_from_sender_only_witness:
  "(\<exists>h1. forward_copy sample_elem_length sample_edges 1 0 sample_heap = Inr h1 \<and>
         sample_elem_length 3 (input_sizes (sample_heap ! 3) ! 0) =
           sample_elem_length 1 (output_sizes (sample_heap ! 1) ! 0) \<and>
         input_data (h1 ! 3) ! 1 = input_data (sample_heap ! 3) ! 1) \<and>
   (\<exists>h1. forward_copy sample_elem_length sample_edges 1 0 oversized_forward_heap = Inr h1 \<and>
         sample_elem_length 3 (input_sizes (oversized_forward_heap ! 3) ! 0) <
           sample_elem_length 1 (output_sizes (oversized_forward_heap ! 1) ! 0) \<and>
         input_data (h1 ! 3) ! 1 = 8) \<and>
   (\<exists>h2. adjoint_copy sample_elem_length sample_edges 3 0 oversized_adjoint_heap = Inr h2 \<and>
         sample_elem_length 1 (output_sizes (oversized_adjoint_heap ! 1) ! 0) <
           sample_elem_length 3 (input_sizes (oversized_adjoint_heap ! 3) ! 0) \<and>
         output_data (h2 ! 1) ! 1 = 4)"
proof (intro conjI)
  let ?h = sample_heap
  have "case forward_copy sample_elem_length sample_edges 1 0 ?h of Inl err \<Rightarrow> False | Inr h1 \<Rightarrow> True"
    by code_simp
  from Inr_caseD [OF this] obtain h1 where
    run: "forward_copy sample_elem_length sample_edges 1 0 ?h = Inr h1" by blast
  have tbl: "sample_edges (output_edges (?h ! 1) ! 0) = Some (1, 3)"
    and j: "input_edges (?h ! 3) ! 0 = output_edges (?h ! 1) ! 0"
    and eq: "sample_elem_length 3 (input_sizes (?h ! 3) ! 0) = sample_elem_length 1 (output_sizes (?h ! 1) ! 0)"
    and k: "1 < length (input_data (?h ! 3))"
      "offset_at (input_offsets (?h ! 3)) (output_edges (?h ! 1) ! 0) +
         sample_elem_length 3 (input_sizes (?h ! 3) ! 0) \<le> 1"
    by code_simp+
  from copy_length_from_sender_only
    [of sample_elem_length sample_edges 1 0 ?h 3 "[]" h1 1 3 0] run tbl j eq k
  have "input_data (h1 ! 3) ! 1 = input_data (?h ! 3) ! 1" by blast
  with run eq show "\<exists>h1. forward_copy sample_elem_length sample_edges 1 0 sample_heap = Inr h1 \<and>
         sample_elem_length 3 (input_sizes (sample_heap ! 3) ! 0) =
           sample_elem_length 1 (output_sizes (sample_heap ! 1) ! 0) \<and>
         input_data (h1 ! 3) ! 1 = input_data (sample_heap ! 3) ! 1" by blast
next
  let ?h = oversized_forward_heap
  have "case forward_copy sample_elem_length sample_edges 1 0 ?h of Inl err \<Rightarrow> False | Inr h1 \<Rightarrow> True"
    by code_simp
  from Inr_caseD [OF this] obtain h1 where
    run: "forward_copy sample_elem_length sample_edges 1 0 ?h = Inr h1" by blast
  have tbl: "sample_edges (output_edges (?h ! 1) ! 0) = Some (1, 3)"
    and j: "input_edges (?h ! 3) ! 0 = output_edges (?h ! 1) ! 0"
    and lt: "sample_elem_length 3 (input_sizes (?h ! 3) ! 0) < sample_elem_length 1 (output_sizes (?h ! 1) ! 0)"
    and pos: "offset_at (input_offsets (?h ! 3)) (output_edges (?h ! 1) ! 0) +
         sample_elem_length 3 (input_sizes (?h ! 3) ! 0) = 1"
    and val: "output_data (?h ! 1) ! (offset_at (output_offsets (?h ! 1)) (output_edges (?h ! 1) ! 0) +
         sample_elem_length 3 (input_sizes (?h ! 3) ! 0)) = 8"
    by code_simp+
  from copy_length_from_sender_only
    [of sample_elem_length sample_edges 1 0 ?h 3 "[]" h1 1 3 0] run tbl j lt
  have "input_data (h1 ! 3) ! (offset_at (input_offsets (?h ! 3)) (output_edges (?h ! 1) ! 0) +
         sample_elem_length 3 (input_sizes (?h ! 3) ! 0)) =
        output_data (?h ! 1) ! (offset_at (output_offsets (?h ! 1)) (output_edges (?h ! 1) ! 0) +
         sample_elem_length 3 (input_sizes (?h ! 3) ! 0))" by blast
  then have "input_data (h1 ! 3) ! 1 = 8" by (simp only: pos val)
  with run lt show "\<exists>h1. forward_copy sample_elem_length sample_edges 1 0 ?h = Inr h1 \<and>
         sample_elem_length 3 (input_sizes (?h ! 3) ! 0) <
           sample_elem_length 1 (output_sizes (?h ! 1) ! 0) \<and>
         input_data (h1 ! 3) ! 1 = 8" by (intro exI [of _ h1] conjI)
next
  let ?h = oversized_adjoint_heap
  have "case adjoint_copy sample_elem_length sample_edges 3 0 ?h of Inl err \<Rightarrow> False | Inr h2 \<Rightarrow> True"
    by code_simp
  from Inr_caseD [OF this] obtain h2 where
    run: "adjoint_copy sample_elem_length sample_edges 3 0 ?h = Inr h2" by blast
  have tbl: "sample_edges (input_edges (?h ! 3) ! 0) = Some (1, 3)"
    and j: "output_edges (?h ! 1) ! 0 = input_edges (?h ! 3) ! 0"
    and lt: "sample_elem_length 1 (output_sizes (?h ! 1) ! 0) < sample_elem_length 3 (input_sizes (?h ! 3) ! 0)"
    and pos: "offset_at (output_offsets (?h ! 1)) (input_edges (?h ! 3) ! 0) +
         sample_elem_length 1 (output_sizes (?h ! 1) ! 0) = 1"
    and val: "input_data (?h ! 3) ! (offset_at (input_offsets (?h ! 3)) (input_edges (?h ! 3) ! 0) +
         sample_elem_length 1 (output_sizes (?h ! 1) ! 0)) = 4"
    by code_simp+
  from copy_length_from_sender_only
    [of sample_elem_length sample_edges 3 0 ?h 3 "[]" _ 1 3 0 h2] run tbl j lt
  have "output_data (h2 ! 1) ! (offset_at (output_offsets (?h ! 1)) (input_edges (?h ! 3) ! 0) +
         sample_elem_length 1 (output_sizes (?h ! 1) ! 0)) =
        input_data (?h ! 3) ! (offset_at (input_offsets (?h ! 3)) (input_edges (?h ! 3) ! 0) +
         sample_elem_length 1 (output_sizes (?h ! 1) ! 0))" by blast
  then have "output_data (h2 ! 1) ! 1 = 4" by (simp only: pos val)
  with run lt show "\<exists>h2. adjoint_copy sample_elem_length sample_edges 3 0 ?h = Inr h2 \<and>
         sample_elem_length 1 (output_sizes (?h ! 1) ! 0) <
           sample_elem_length 3 (input_sizes (?h ! 3) ! 0) \<and>
         output_data (h2 ! 1) ! 1 = 4" by (intro exI [of _ h2] conjI)
qed

section \<open>Evaluating a chain\<close>

lemma forward_node_eval_leaf:
  assumes "n < length h" "stateless node_kernel K" "output_edges (h ! n) = []"
  shows "forward_node_eval node_kernel gel tbl n h =
           Inr (h[n := (h ! n)\<lparr>output_data := K n (input_data (h ! n))\<rparr>])"
  using assms by (simp add: forward_node_eval_def stateless_def)

lemma forward_node_eval_single:
  assumes n: "n < length h" and t: "t < length h" and nt: "n \<noteq> t"
    and K: "stateless node_kernel K"
    and e: "output_edges (h ! n) = [e]" "tbl e = Some (n, t)"
    and sz: "output_sizes (h ! n) \<noteq> []" "gel n (output_sizes (h ! n) ! 0) = L"
    and len: "length (K n (input_data (h ! n))) = L" "length (input_data (h ! t)) = L"
    and off: "offset_at (output_offsets (h ! n)) e = 0" "offset_at (input_offsets (h ! t)) e = 0"
  shows "forward_node_eval node_kernel gel tbl n h =
           Inr (h[n := (h ! n)\<lparr>output_data := K n (input_data (h ! n)),
                                 output_offsets := offset_touch (output_offsets (h ! n)) e\<rparr>,
                  t := (h ! t)\<lparr>input_offsets := offset_touch (input_offsets (h ! t)) e,
                                 input_data := K n (input_data (h ! n))\<rparr>])"
proof -
  let ?h1 = "h[n := node_kernel n (h ! n)]"
  have k: "node_kernel n (h ! n) = (h ! n)\<lparr>output_data := K n (input_data (h ! n))\<rparr>"
    using K by (simp add: stateless_def)
  have copy: "forward_copy gel tbl n 0 ?h1 =
           Inr (h[n := (h ! n)\<lparr>output_data := K n (input_data (h ! n)),
                                 output_offsets := offset_touch (output_offsets (h ! n)) e\<rparr>,
                  t := (h ! t)\<lparr>input_offsets := offset_touch (input_offsets (h ! t)) e,
                                 input_data := K n (input_data (h ! n))\<rparr>])"
    using n t nt e sz len off
    by (simp add: forward_copy_def k Let_def vector_subvec_memcpy_def nth_list_update)
  show ?thesis
    using n e copy by (simp add: forward_node_eval_def k Let_def)
qed

lemma traverse_loop_step:
  assumes "ready_queue g = c # rest" "node_fn c h = Inr h'" "c < length h'"
    and "visit_edges forward h' (if forward then output_edges (h' ! c) else input_edges (h' ! c))
           (g\<lparr>ready_queue := rest, eval_map := eval_map_incr (eval_map g) c\<rparr>) = Inr g'"
  shows "traverse_loop node_fn forward (h, g) = traverse_loop node_fn forward (h', g')"
  using assms by (subst traverse_loop.simps) (simp add: loop_body_def)

lemma traverse_loop_done:
  "ready_queue g = [] \<Longrightarrow> traverse_loop node_fn forward (h, g) = Some (Inr (h, g))"
  by (subst traverse_loop.simps) simp

lemma forward_eval_chain:
  assumes nodes: "a < length h" "b < length h" "c < length h" "a \<noteq> b" "b \<noteq> c" "a \<noteq> c"
    and ends: "start_node g = a" "end_node g = c"
    and idle: "ready_queue g = []" "eval_map g = Map.empty"
    and calls: "forward_evals g \<noteq> 2147483647"
    and ea: "input_edges (h ! a) = []" "output_edges (h ! a) = [e1]"
    and eb: "input_edges (h ! b) = [e1]" "output_edges (h ! b) = [e2]"
    and ec: "input_edges (h ! c) = [e2]" "output_edges (h ! c) = []"
    and tbl: "edges g e1 = Some (a, b)" "edges g e2 = Some (b, c)"
    and K: "stateless node_kernel K"
    and sa: "output_sizes (h ! a) \<noteq> []" "length (K a (input_data (h ! a))) = gel a (output_sizes (h ! a) ! 0)"
      "length (input_data (h ! b)) = gel a (output_sizes (h ! a) ! 0)"
      "offset_at (output_offsets (h ! a)) e1 = 0" "offset_at (input_offsets (h ! b)) e1 = 0"
    and sb: "output_sizes (h ! b) \<noteq> []" "length (K b (K a (input_data (h ! a)))) = gel b (output_sizes (h ! b) ! 0)"
      "length (input_data (h ! c)) = gel b (output_sizes (h ! b) ! 0)"
      "offset_at (output_offsets (h ! b)) e2 = 0" "offset_at (input_offsets (h ! c)) e2 = 0"
  shows "\<exists>h'. forward_eval node_kernel gel t0 t1 (h, g) =
             Some (Inr (h', g\<lparr>forward_evals := forward_evals g + 1,
                               total_forward_eval_time := total_forward_eval_time g + (t1 - t0)\<rparr>)) \<and>
           length h' = length h \<and>
           output_data (h' ! c) = K c (K b (K a (input_data (h ! a)))) \<and>
           input_data (h' ! a) = input_data (h ! a)"
proof -
  let ?v = "forward_node_eval node_kernel gel (edges g)"
  define h1 where "h1 = h[a := (h ! a)\<lparr>output_data := K a (input_data (h ! a)),
                                 output_offsets := offset_touch (output_offsets (h ! a)) e1\<rparr>,
                  b := (h ! b)\<lparr>input_offsets := offset_touch (input_offsets (h ! b)) e1,
                                 input_data := K a (input_data (h ! a))\<rparr>]"
  define h2 where "h2 = h1[b := (h1 ! b)\<lparr>output_data := K b (input_data (h1 ! b)),
                                 output_offsets := offset_touch (output_offsets (h1 ! b)) e2\<rparr>,
                  c := (h1 ! c)\<lparr>input_offsets := offset_touch (input_offsets (h1 ! c)) e2,
                                 input_data := K b (input_data (h1 ! b))\<rparr>]"
  define h3 where "h3 = h2[c := (h2 ! c)\<lparr>output_data := K c (input_data (h2 ! c))\<rparr>]"
  have v1: "?v a h = Inr h1"
    unfolding h1_def
    using nodes ea tbl K sa by (intro forward_node_eval_single) simp_all
  have l1: "length h1 = length h" by (simp add: h1_def)
  have f1: "output_edges (h1 ! a) = [e1]" "input_edges (h1 ! b) = [e1]" "output_edges (h1 ! b) = [e2]"
    "output_sizes (h1 ! b) = output_sizes (h ! b)" "output_offsets (h1 ! b) = output_offsets (h ! b)"
    "input_data (h1 ! b) = K a (input_data (h ! a))" "h1 ! c = h ! c"
    "input_data (h1 ! a) = input_data (h ! a)"
    using nodes ea eb by (simp_all add: h1_def nth_list_update)
  have v2: "?v b h1 = Inr h2"
    unfolding h2_def
    using nodes l1 f1 tbl K sb by (intro forward_node_eval_single) simp_all
  have l2: "length h2 = length h" by (simp add: h2_def l1)
  have f2: "output_edges (h2 ! b) = [e2]" "input_edges (h2 ! c) = [e2]" "output_edges (h2 ! c) = []"
    "input_data (h2 ! c) = K b (K a (input_data (h ! a)))"
    "input_data (h2 ! a) = input_data (h ! a)"
    using nodes l1 f1 ec by (simp_all add: h2_def nth_list_update)
  have v3: "?v c h2 = Inr h3"
    unfolding h3_def
    using nodes l2 f2 K by (intro forward_node_eval_leaf) simp_all
  have l3: "length h3 = length h" by (simp add: h3_def l2)
  have f3: "output_edges (h3 ! c) = []" "output_data (h3 ! c) = K c (K b (K a (input_data (h ! a))))"
    "input_data (h3 ! a) = input_data (h ! a)"
    using nodes l2 f2 by (simp_all add: h3_def nth_list_update)
  define em1 where "em1 = eval_map_incr (eval_map_incr Map.empty a) b"
  define em2 where "em2 = eval_map_incr (eval_map_incr em1 b) c"
  define em3 where "em3 = eval_map_incr em2 c"
  define g1 where "g1 = g\<lparr>ready_queue := [b], eval_map := em1\<rparr>"
  define g2 where "g2 = g\<lparr>ready_queue := [c], eval_map := em2\<rparr>"
  define g3 where "g3 = g\<lparr>ready_queue := [], eval_map := em3\<rparr>"
  have empty: "eval_map_at Map.empty n = 0" for n by (simp add: eval_map_at_def)
  have c1: "eval_map_at em1 b = 1" using nodes by (simp add: em1_def eval_map_at_incr empty)
  have c2: "eval_map_at em2 c = 1" using nodes by (simp add: em2_def em1_def eval_map_at_incr empty)
  have s1: "traverse_loop ?v True (h, g\<lparr>ready_queue := ready_queue g @ [a]\<rparr>) = traverse_loop ?v True (h1, g1)"
    using v1 nodes l1 f1 tbl idle
    by (intro traverse_loop_step [where c = a and rest = "[]"])
       (simp_all add: visit_edge_def Let_def g1_def c1 [unfolded em1_def] em1_def)
  have s2: "traverse_loop ?v True (h1, g1) = traverse_loop ?v True (h2, g2)"
    using v2 nodes l2 f2 tbl
    by (intro traverse_loop_step [where c = b and rest = "[]"])
       (simp_all add: visit_edge_def Let_def g1_def g2_def c2 [unfolded em2_def] em2_def)
  have s3: "traverse_loop ?v True (h2, g2) = traverse_loop ?v True (h3, g3)"
    using v3 nodes l3 f3
    by (intro traverse_loop_step [where c = c and rest = "[]"])
       (simp_all add: g2_def g3_def em3_def)
  have "traverse_loop ?v True (h, g\<lparr>ready_queue := ready_queue g @ [a]\<rparr>) = Some (Inr (h3, g3))"
    unfolding s1 s2 s3 by (rule traverse_loop_done) (simp add: g3_def)
  moreover have "g3\<lparr>eval_map := Map.empty\<rparr> = g" using idle by (simp add: g3_def)
  ultimately have "traverse_graph ?v True (h, g) = Some (Inr (h3, g))"
    using ends by (simp add: traverse_graph_def)
  then have "forward_eval node_kernel gel t0 t1 (h, g) =
      Some (Inr (h3, g\<lparr>forward_evals := forward_evals g + 1,
                       total_forward_eval_time := total_forward_eval_time g + (t1 - t0)\<rparr>))"
    using calls by (simp add: forward_eval_def)
  with f3 l3 show ?thesis by simp
qed

lemma forward_eval_single_node:
  assumes a: "a < length h" and ends: "start_node g = a" "end_node g = a"
    and idle: "ready_queue g = []" "eval_map g = Map.empty"
    and calls: "forward_evals g \<noteq> 2147483647"
    and e: "output_edges (h ! a) = []"
    and K: "stateless node_kernel K"
  shows "forward_eval node_kernel gel t0 t1 (h, g) =
      Some (Inr (h[a := (h ! a)\<lparr>output_data := K a (input_data (h ! a))\<rparr>],
                 g\<lparr>forward_evals := forward_evals g + 1,
                   total_forward_eval_time := total_forward_eval_time g + (t1 - t0)\<rparr>))"
proof -
  let ?v = "forward_node_eval node_kernel gel (edges g)"
  let ?h1 = "h[a := (h ! a)\<lparr>output_data := K a (input_data (h ! a))\<rparr>]"
  let ?g1 = "g\<lparr>ready_queue := [], eval_map := eval_map_incr Map.empty a\<rparr>"
  have v: "?v a h = Inr ?h1" by (rule forward_node_eval_leaf [OF a K e])
  have "traverse_loop ?v True (h, g\<lparr>ready_queue := ready_queue g @ [a]\<rparr>) = traverse_loop ?v True (?h1, ?g1)"
    using v a e idle by (intro traverse_loop_step [where c = a and rest = "[]"]) simp_all
  also have "\<dots> = Some (Inr (?h1, ?g1))" by (rule traverse_loop_done) simp
  finally have "traverse_graph ?v True (h, g) = Some (Inr (?h1, g))"
    using ends idle by (simp add: traverse_graph_def)
  then show ?thesis using calls by (simp add: forward_eval_def)
qed

text \<open>
  C4. On a linear chain \<open>a \<rightarrow> b \<rightarrow> c\<close> with stateless kernels, \<^verbatim>\<open>forward_eval\<close>
  returns, and the global output buffer then holds the kernel of \<open>c\<close> applied to the
  kernel of \<open>b\<close> applied to the kernel of \<open>a\<close> applied to the global input. On a graph
  of one node whose kernel is the identity, the global output is the global input, which
  is itself unchanged.
\<close>

theorem forward_eval_chain_and_identity:
  "(linear_chain h g gel K a b c e1 e2 \<and> stateless node_kernel K \<and>
    ready_queue g = [] \<and> eval_map g = Map.empty \<and> forward_evals g \<noteq> 2147483647 \<longrightarrow>
      (\<exists>h' g'. forward_eval node_kernel gel t0 t1 (h, g) = Some (Inr (h', g')) \<and>
         read_buffer h' (get_forward_output g') =
           Inr (K c (K b (K a (input_data (h ! start_node g))))))) \<and>
   (single_node h g a \<and> stateless node_kernel (\<lambda>n x. x) \<and>
    ready_queue g = [] \<and> eval_map g = Map.empty \<and> forward_evals g \<noteq> 2147483647 \<longrightarrow>
      (\<exists>h' g'. forward_eval node_kernel gel t0 t1 (h, g) = Some (Inr (h', g')) \<and>
         read_buffer h' (get_forward_output g') = Inr (input_data (h ! start_node g)) \<and>
         read_buffer h' (get_forward_input g') = Inr (input_data (h ! start_node g))))"
proof (intro conjI impI)
  assume "linear_chain h g gel K a b c e1 e2 \<and> stateless node_kernel K \<and>
    ready_queue g = [] \<and> eval_map g = Map.empty \<and> forward_evals g \<noteq> 2147483647"
  then have ch: "linear_chain h g gel K a b c e1 e2" and K: "stateless node_kernel K"
    and idle: "ready_queue g = []" "eval_map g = Map.empty" and calls: "forward_evals g \<noteq> 2147483647"
    by simp_all
  from ch have nodes: "a < length h" "b < length h" "c < length h" "a \<noteq> b" "b \<noteq> c" "a \<noteq> c"
    and ends: "start_node g = a" "end_node g = c"
    and ea: "input_edges (h ! a) = []" "output_edges (h ! a) = [e1]"
    and eb: "input_edges (h ! b) = [e1]" "output_edges (h ! b) = [e2]"
    and ec: "input_edges (h ! c) = [e2]" "output_edges (h ! c) = []"
    and tbl: "edges g e1 = Some (a, b)" "edges g e2 = Some (b, c)"
    and sa: "output_sizes (h ! a) \<noteq> []" "length (K a (input_data (h ! a))) = gel a (output_sizes (h ! a) ! 0)"
      "length (input_data (h ! b)) = gel a (output_sizes (h ! a) ! 0)"
      "offset_at (output_offsets (h ! a)) e1 = 0" "offset_at (input_offsets (h ! b)) e1 = 0"
    and sb: "output_sizes (h ! b) \<noteq> []" "length (K b (K a (input_data (h ! a)))) = gel b (output_sizes (h ! b) ! 0)"
      "length (input_data (h ! c)) = gel b (output_sizes (h ! b) ! 0)"
      "offset_at (output_offsets (h ! b)) e2 = 0" "offset_at (input_offsets (h ! c)) e2 = 0"
    unfolding linear_chain_def by blast+
  let ?g' = "g\<lparr>forward_evals := forward_evals g + 1,
                  total_forward_eval_time := total_forward_eval_time g + (t1 - t0)\<rparr>"
  from forward_eval_chain [where K = K and gel = gel and ?t0.0 = t0 and ?t1.0 = t1,
      OF nodes ends idle calls ea eb ec tbl K sa sb]
  obtain h' where run: "forward_eval node_kernel gel t0 t1 (h, g) = Some (Inr (h', ?g'))"
    and len: "length h' = length h"
    and out: "output_data (h' ! c) = K c (K b (K a (input_data (h ! a))))" by blast
  from out len nodes ends have "read_buffer h' (get_forward_output ?g') =
           Inr (K c (K b (K a (input_data (h ! start_node g)))))"
    by (simp add: get_forward_output_def)
  with run show "\<exists>h' g'. forward_eval node_kernel gel t0 t1 (h, g) = Some (Inr (h', g')) \<and>
         read_buffer h' (get_forward_output g') =
           Inr (K c (K b (K a (input_data (h ! start_node g)))))" by blast
next
  assume "single_node h g a \<and> stateless node_kernel (\<lambda>n x. x) \<and>
    ready_queue g = [] \<and> eval_map g = Map.empty \<and> forward_evals g \<noteq> 2147483647"
  then have a: "a < length h" and ends: "start_node g = a" "end_node g = a"
    and e: "output_edges (h ! a) = []" and K: "stateless node_kernel (\<lambda>n x. x)"
    and idle: "ready_queue g = []" "eval_map g = Map.empty" and calls: "forward_evals g \<noteq> 2147483647"
    by (simp_all add: single_node_def)
  from forward_eval_single_node [where K = "\<lambda>n x. x" and gel = gel and ?t0.0 = t0 and ?t1.0 = t1,
      OF a ends idle calls e K] a ends
  show "\<exists>h' g'. forward_eval node_kernel gel t0 t1 (h, g) = Some (Inr (h', g')) \<and>
         read_buffer h' (get_forward_output g') = Inr (input_data (h ! start_node g)) \<and>
         read_buffer h' (get_forward_input g') = Inr (input_data (h ! start_node g))"
    by (simp add: get_forward_output_def get_forward_input_def)
qed


theorem forward_eval_chain_and_identity_witness:
  "linear_chain chain_heap chain_dag sample_elem_length chain_K 0 1 2 20 21 \<and>
   stateless chain_kernel chain_K \<and>
   (\<exists>h' g'. forward_eval chain_kernel sample_elem_length 0 1 (chain_heap, chain_dag) = Some (Inr (h', g')) \<and>
      read_buffer h' (get_forward_output g') = Inr [10, 8]) \<and>
   single_node identity_heap identity_dag 0 \<and>
   stateless identity_kernel (\<lambda>n x. x) \<and>
   (\<exists>h' g'. forward_eval identity_kernel sample_elem_length 0 1 (identity_heap, identity_dag) = Some (Inr (h', g')) \<and>
      read_buffer h' (get_forward_output g') = Inr [3, 4])"
proof -
  have ch: "linear_chain chain_heap chain_dag sample_elem_length chain_K 0 1 2 20 21"
    by (simp add: linear_chain_def chain_heap_def chain_dag_def chain_K_def sample_elem_length_def offset_at_def)
  have K: "stateless chain_kernel chain_K"
    by (simp add: stateless_def chain_kernel_def)
  have idle: "ready_queue chain_dag = []" "eval_map chain_dag = Map.empty" "forward_evals chain_dag \<noteq> 2147483647"
    by (simp_all add: chain_dag_def)
  have sn: "single_node identity_heap identity_dag 0"
    by (simp add: single_node_def identity_heap_def identity_dag_def)
  have I: "stateless identity_kernel (\<lambda>n x. x)"
    by (simp add: stateless_def identity_kernel_def)
  have idle': "ready_queue identity_dag = []" "eval_map identity_dag = Map.empty"
    "forward_evals identity_dag \<noteq> 2147483647"
    by (simp_all add: identity_dag_def)
  have v1: "chain_K 2 (chain_K 1 (chain_K 0 (input_data (chain_heap ! start_node chain_dag)))) = [10, 8]"
    by (simp add: chain_K_def chain_heap_def chain_dag_def)
  have v2: "input_data (identity_heap ! start_node identity_dag) = [3, 4]"
    by (simp add: identity_heap_def identity_dag_def)
  from forward_eval_chain_and_identity
    [of chain_heap chain_dag sample_elem_length chain_K 0 1 2 20 21 chain_kernel 0 1] ch K idle
  have A: "\<exists>h' g'. forward_eval chain_kernel sample_elem_length 0 1 (chain_heap, chain_dag) = Some (Inr (h', g')) \<and>
      read_buffer h' (get_forward_output g') = Inr [10, 8]"
    unfolding v1 by blast
  from forward_eval_chain_and_identity
    [of identity_heap identity_dag sample_elem_length _ 0 _ _ _ _ identity_kernel 0 1] sn I idle'
  have B: "\<exists>h' g'. forward_eval identity_kernel sample_elem_length 0 1 (identity_heap, identity_dag) = Some (Inr (h', g')) \<and>
      read_buffer h' (get_forward_output g') = Inr [3, 4]"
    unfolding v2 by blast
  from ch K A sn I B show ?thesis by (intro conjI)
qed

section \<open>Repeated forward passes\<close>

subsection \<open>Offsets and slices that are already in place\<close>

lemma offset_touch_present: "m e \<noteq> None \<Longrightarrow> offset_touch m e = m"
  by (auto simp: offset_at_def offset_touch_def fun_eq_iff)

lemma offset_touch_keeps: "m k \<noteq> None \<Longrightarrow> offset_touch m e k \<noteq> None"
  by (simp add: offset_touch_def)

lemma offset_touch_self: "offset_touch m e e \<noteq> None"
  by (simp add: offset_touch_def)

text \<open>Copying a slice that is already in place returns the destination unchanged.\<close>

lemma memcpy_noop:
  assumes "slice_present dst doff src soff len"
  shows "vector_subvec_memcpy dst doff src soff len = Inr dst"
proof -
  from assms have b: "doff + len \<le> length dst" "soff + len \<le> length src"
    and eq: "\<forall>j<len. dst ! (doff + j) = src ! (soff + j)"
    by (simp_all add: slice_present_def)
  have "take len (drop soff src) = take len (drop doff dst)"
    using b eq by (intro nth_equalityI) simp_all
  moreover have "drop (doff + len) dst = drop len (drop doff dst)"
    by (simp add: add.commute)
  ultimately have "take doff dst @ take len (drop soff src) @ drop (doff + len) dst =
        take doff dst @ (take len (drop doff dst) @ drop len (drop doff dst))"
    by (simp only:)
  also have "\<dots> = dst" by (simp only: append_take_drop_id)
  finally show ?thesis using b by (simp add: vector_subvec_memcpy_def)
qed

lemma slice_copied_present:
  "slice_copied dst doff src soff len dst' \<Longrightarrow> slice_present dst' doff src soff len"
  by (simp add: slice_copied_def slice_present_def)

lemma slice_present_frame:
  assumes "slice_present dst doff src soff len" "slice_copied dst doff' src' soff' len' dst'"
    and "doff + len \<le> doff' \<or> doff' + len' \<le> doff"
  shows "slice_present dst' doff src soff len"
  using assms by (auto simp: slice_copied_def slice_present_def)

text \<open>A property that every position of the copy loop carries one step further holds when the loop ends.\<close>

lemma copy_loop_upt:
  assumes step: "\<And>i x y. i < m \<Longrightarrow> J i x \<Longrightarrow> step i x = Inr y \<Longrightarrow> J (Suc i) y"
  shows "k \<le> m \<Longrightarrow> J k h \<Longrightarrow> copy_loop step [k..<m] h = Inr h' \<Longrightarrow> J m h'"
proof (induction "m - k" arbitrary: k h)
  case 0
  then show ?case by simp
next
  case (Suc d)
  then have km: "k < m" by simp
  with Suc.prems(3) obtain h1 where h1: "step k h = Inr h1" "copy_loop step [Suc k..<m] h1 = Inr h'"
    by (auto simp: upt_conv_Cons split: sum.splits)
  have J1: "J (Suc k) h1" using step [OF km Suc.prems(2) h1(1)] .
  have "d = m - Suc k" using Suc.hyps(2) by simp
  from Suc.hyps(1) [OF this _ J1 h1(2)] km show ?case by simp
qed

lemma copy_loop_noop:
  "(\<And>i. i \<in> set is \<Longrightarrow> step i h = Inr h) \<Longrightarrow> copy_loop step is h = Inr h"
  by (induction "is") simp_all

subsection \<open>One copy of the forward visitor\<close>

text \<open>Every field of every node after one copy of the forward visitor.\<close>

lemma forward_copy_fields:
  assumes "forward_copy gel tbl n i h = Inr h'"
  obtains edge where
    "n < length h" "i < length (output_edges (h ! n))" "i < length (output_sizes (h ! n))"
    "tbl (output_edges (h ! n) ! i) = Some edge" "snd edge < length h"
    "length h' = length h"
    "\<forall>m<length h.
       input_edges (h' ! m) = input_edges (h ! m) \<and> output_edges (h' ! m) = output_edges (h ! m) \<and>
       output_sizes (h' ! m) = output_sizes (h ! m) \<and> output_data (h' ! m) = output_data (h ! m)"
    "\<forall>m<length h. output_offsets (h' ! m) =
       (if m = n then offset_touch (output_offsets (h ! n)) (output_edges (h ! n) ! i)
        else output_offsets (h ! m))"
    "\<forall>m<length h. input_offsets (h' ! m) =
       (if m = snd edge then offset_touch (input_offsets (h ! snd edge)) (output_edges (h ! n) ! i)
        else input_offsets (h ! m))"
    "\<forall>m<length h. m \<noteq> snd edge \<longrightarrow> input_data (h' ! m) = input_data (h ! m)"
    "slice_copied (input_data (h ! snd edge))
        (offset_at (input_offsets (h ! snd edge)) (output_edges (h ! n) ! i))
        (output_data (h ! n))
        (offset_at (output_offsets (h ! n)) (output_edges (h ! n) ! i))
        (gel n (output_sizes (h ! n) ! i))
        (input_data (h' ! snd edge))"
proof -
  from assms obtain edge v where
    c: "n < length h" "i < length (output_edges (h ! n))" "i < length (output_sizes (h ! n))"
      "tbl (output_edges (h ! n) ! i) = Some edge" "snd edge < length h"
    and m: "vector_subvec_memcpy (input_data (h ! snd edge))
        (offset_at (input_offsets (h ! snd edge)) (output_edges (h ! n) ! i))
        (output_data (h ! n))
        (offset_at (output_offsets (h ! n)) (output_edges (h ! n) ! i))
        (gel n (output_sizes (h ! n) ! i)) = Inr v"
    and h': "h' = (h[n := (h ! n)\<lparr>output_offsets :=
                offset_touch (output_offsets (h ! n)) (output_edges (h ! n) ! i)\<rparr>])
          [snd edge :=
             (h[n := (h ! n)\<lparr>output_offsets :=
                offset_touch (output_offsets (h ! n)) (output_edges (h ! n) ! i)\<rparr>] ! snd edge)
             \<lparr>input_offsets := offset_touch (input_offsets (h ! snd edge)) (output_edges (h ! n) ! i),
               input_data := v\<rparr>]"
    by (rule forward_copy_cases)
  have v: "input_data (h' ! snd edge) = v" using c by (simp add: h')
  show ?thesis
  proof (rule that [of edge])
    show "n < length h" "i < length (output_edges (h ! n))" "i < length (output_sizes (h ! n))"
      "tbl (output_edges (h ! n) ! i) = Some edge" "snd edge < length h"
      by (rule c)+
    show "length h' = length h" by (simp add: h')
    show "slice_copied (input_data (h ! snd edge))
        (offset_at (input_offsets (h ! snd edge)) (output_edges (h ! n) ! i))
        (output_data (h ! n))
        (offset_at (output_offsets (h ! n)) (output_edges (h ! n) ! i))
        (gel n (output_sizes (h ! n) ! i))
        (input_data (h' ! snd edge))"
      unfolding v by (rule memcpy_slice [OF m])
    show "\<forall>m<length h.
       input_edges (h' ! m) = input_edges (h ! m) \<and> output_edges (h' ! m) = output_edges (h ! m) \<and>
       output_sizes (h' ! m) = output_sizes (h ! m) \<and> output_data (h' ! m) = output_data (h ! m)"
      using c by (simp add: h' nth_list_update)
    show "\<forall>m<length h. output_offsets (h' ! m) =
       (if m = n then offset_touch (output_offsets (h ! n)) (output_edges (h ! n) ! i)
        else output_offsets (h ! m))"
      using c by (simp add: h' nth_list_update)
    show "\<forall>m<length h. input_offsets (h' ! m) =
       (if m = snd edge then offset_touch (input_offsets (h ! snd edge)) (output_edges (h ! n) ! i)
        else input_offsets (h ! m))"
      using c by (simp add: h' nth_list_update)
    show "\<forall>m<length h. m \<noteq> snd edge \<longrightarrow> input_data (h' ! m) = input_data (h ! m)"
      using c by (simp add: h' nth_list_update)
  qed
qed

lemma forward_copy_layout:
  assumes "forward_copy gel tbl n i h = Inr h'" "same_layout h0 h"
  shows "same_layout h0 h'"
proof -
  from assms(1) obtain edge where
    F: "n < length h" "i < length (output_edges (h ! n))" "i < length (output_sizes (h ! n))"
      "tbl (output_edges (h ! n) ! i) = Some edge" "snd edge < length h"
      "length h' = length h"
      "\<forall>m<length h.
       input_edges (h' ! m) = input_edges (h ! m) \<and> output_edges (h' ! m) = output_edges (h ! m) \<and>
       output_sizes (h' ! m) = output_sizes (h ! m) \<and> output_data (h' ! m) = output_data (h ! m)"
      "\<forall>m<length h. output_offsets (h' ! m) =
       (if m = n then offset_touch (output_offsets (h ! n)) (output_edges (h ! n) ! i)
        else output_offsets (h ! m))"
      "\<forall>m<length h. input_offsets (h' ! m) =
       (if m = snd edge then offset_touch (input_offsets (h ! snd edge)) (output_edges (h ! n) ! i)
        else input_offsets (h ! m))"
      "\<forall>m<length h. m \<noteq> snd edge \<longrightarrow> input_data (h' ! m) = input_data (h ! m)"
      "slice_copied (input_data (h ! snd edge))
        (offset_at (input_offsets (h ! snd edge)) (output_edges (h ! n) ! i))
        (output_data (h ! n))
        (offset_at (output_offsets (h ! n)) (output_edges (h ! n) ! i))
        (gel n (output_sizes (h ! n) ! i))
        (input_data (h' ! snd edge))"
    by (rule forward_copy_fields)
  from assms(2) have len: "length h = length h0" by (simp add: same_layout_def)
  show ?thesis
    unfolding same_layout_def
  proof (intro conjI allI impI)
    show "length h' = length h0" using F(6) len by simp
  next
    fix m assume m: "m < length h0"
    then have m': "m < length h" using len by simp
    from assms(2) m have l: "input_edges (h ! m) = input_edges (h0 ! m)" "output_edges (h ! m) = output_edges (h0 ! m)"
      "output_sizes (h ! m) = output_sizes (h0 ! m)"
      "\<And>e. offset_at (input_offsets (h ! m)) e = offset_at (input_offsets (h0 ! m)) e"
      "\<And>e. offset_at (output_offsets (h ! m)) e = offset_at (output_offsets (h0 ! m)) e"
      by (simp_all add: same_layout_def)
    show "input_edges (h' ! m) = input_edges (h0 ! m)" "output_edges (h' ! m) = output_edges (h0 ! m)"
      "output_sizes (h' ! m) = output_sizes (h0 ! m)"
      using F(7) [rule_format, OF m'] l by simp_all
    fix e
    show "offset_at (input_offsets (h' ! m)) e = offset_at (input_offsets (h0 ! m)) e"
      using F(9) [rule_format, OF m'] l(4) by (cases "m = snd edge") (simp_all add: offset_at_touch)
    show "offset_at (output_offsets (h' ! m)) e = offset_at (output_offsets (h0 ! m)) e"
      using F(8) [rule_format, OF m'] l(5) by (cases "m = n") (simp_all add: offset_at_touch)
  qed
qed

lemma forward_copy_settles:
  assumes "forward_copy gel tbl n i h = Inr h'"
  shows "edge_settled gel tbl h' n i"
proof -
  from assms obtain edge where
    F: "n < length h" "i < length (output_edges (h ! n))" "i < length (output_sizes (h ! n))"
      "tbl (output_edges (h ! n) ! i) = Some edge" "snd edge < length h"
      "length h' = length h"
      "\<forall>m<length h.
       input_edges (h' ! m) = input_edges (h ! m) \<and> output_edges (h' ! m) = output_edges (h ! m) \<and>
       output_sizes (h' ! m) = output_sizes (h ! m) \<and> output_data (h' ! m) = output_data (h ! m)"
      "\<forall>m<length h. output_offsets (h' ! m) =
       (if m = n then offset_touch (output_offsets (h ! n)) (output_edges (h ! n) ! i)
        else output_offsets (h ! m))"
      "\<forall>m<length h. input_offsets (h' ! m) =
       (if m = snd edge then offset_touch (input_offsets (h ! snd edge)) (output_edges (h ! n) ! i)
        else input_offsets (h ! m))"
      "\<forall>m<length h. m \<noteq> snd edge \<longrightarrow> input_data (h' ! m) = input_data (h ! m)"
      "slice_copied (input_data (h ! snd edge))
        (offset_at (input_offsets (h ! snd edge)) (output_edges (h ! n) ! i))
        (output_data (h ! n))
        (offset_at (output_offsets (h ! n)) (output_edges (h ! n) ! i))
        (gel n (output_sizes (h ! n) ! i))
        (input_data (h' ! snd edge))"
    by (rule forward_copy_fields)
  show ?thesis
    unfolding edge_settled_def
    using F(1-6) F(7) [rule_format, OF F(1)] F(8) [rule_format, OF F(1)] F(9) [rule_format, OF F(5)] slice_copied_present [OF F(11)]
    by (simp add: offset_at_touch offset_touch_self)
qed

text \<open>A copy into a range that is disjoint from the range of a settled edge leaves that edge settled.\<close>

lemma forward_copy_keeps_settled:
  assumes copy: "forward_copy gel tbl n i' h = Inr h'"
    and v: "v < length h"
    and es: "edge_settled gel tbl h v i"
    and dis: "\<And>edge edge'. tbl (output_edges (h ! v) ! i) = Some edge \<Longrightarrow>
        tbl (output_edges (h ! n) ! i') = Some edge' \<Longrightarrow> snd edge = snd edge' \<Longrightarrow>
        snd edge < length h \<Longrightarrow>
        offset_at (input_offsets (h ! snd edge)) (output_edges (h ! v) ! i) +
          gel v (output_sizes (h ! v) ! i)
          \<le> offset_at (input_offsets (h ! snd edge)) (output_edges (h ! n) ! i') \<or>
        offset_at (input_offsets (h ! snd edge)) (output_edges (h ! n) ! i') +
          gel n (output_sizes (h ! n) ! i')
          \<le> offset_at (input_offsets (h ! snd edge)) (output_edges (h ! v) ! i)"
  shows "edge_settled gel tbl h' v i"
proof -
  let ?e = "output_edges (h ! v) ! i"
  from copy obtain edge' where
    F: "n < length h" "i' < length (output_edges (h ! n))" "i' < length (output_sizes (h ! n))"
      "tbl (output_edges (h ! n) ! i') = Some edge'" "snd edge' < length h"
      "length h' = length h"
      "\<forall>m<length h.
       input_edges (h' ! m) = input_edges (h ! m) \<and> output_edges (h' ! m) = output_edges (h ! m) \<and>
       output_sizes (h' ! m) = output_sizes (h ! m) \<and> output_data (h' ! m) = output_data (h ! m)"
      "\<forall>m<length h. output_offsets (h' ! m) =
       (if m = n then offset_touch (output_offsets (h ! n)) (output_edges (h ! n) ! i')
        else output_offsets (h ! m))"
      "\<forall>m<length h. input_offsets (h' ! m) =
       (if m = snd edge' then offset_touch (input_offsets (h ! snd edge')) (output_edges (h ! n) ! i')
        else input_offsets (h ! m))"
      "\<forall>m<length h. m \<noteq> snd edge' \<longrightarrow> input_data (h' ! m) = input_data (h ! m)"
      "slice_copied (input_data (h ! snd edge'))
        (offset_at (input_offsets (h ! snd edge')) (output_edges (h ! n) ! i'))
        (output_data (h ! n))
        (offset_at (output_offsets (h ! n)) (output_edges (h ! n) ! i'))
        (gel n (output_sizes (h ! n) ! i'))
        (input_data (h' ! snd edge'))"
    by (rule forward_copy_fields)
  from es obtain edge where
    e: "tbl ?e = Some edge" "snd edge < length h" "i < length (output_sizes (h ! v))"
      "output_offsets (h ! v) ?e \<noteq> None" "input_offsets (h ! snd edge) ?e \<noteq> None"
    and sp: "slice_present (input_data (h ! snd edge)) (offset_at (input_offsets (h ! snd edge)) ?e)
            (output_data (h ! v)) (offset_at (output_offsets (h ! v)) ?e)
            (gel v (output_sizes (h ! v) ! i))"
    by (auto simp: edge_settled_def split: option.splits)
  have oo: "output_offsets (h' ! v) ?e \<noteq> None"
    "offset_at (output_offsets (h' ! v)) ?e = offset_at (output_offsets (h ! v)) ?e"
    using F(8) [rule_format, OF v] e(4)
    by (cases "v = n"; simp add: offset_at_touch offset_touch_keeps del: not_None_eq)+
  have io: "input_offsets (h' ! snd edge) ?e \<noteq> None"
    "offset_at (input_offsets (h' ! snd edge)) ?e = offset_at (input_offsets (h ! snd edge)) ?e"
    using F(9) [rule_format, OF e(2)] e(5)
    by (cases "snd edge = snd edge'"; simp add: offset_at_touch offset_touch_keeps del: not_None_eq)+
  have sp': "slice_present (input_data (h' ! snd edge)) (offset_at (input_offsets (h ! snd edge)) ?e)
            (output_data (h ! v)) (offset_at (output_offsets (h ! v)) ?e)
            (gel v (output_sizes (h ! v) ! i))"
  proof (cases "snd edge = snd edge'")
    case True
    from dis [OF e(1) F(4) True e(2)] have
      "offset_at (input_offsets (h ! snd edge')) ?e + gel v (output_sizes (h ! v) ! i)
          \<le> offset_at (input_offsets (h ! snd edge')) (output_edges (h ! n) ! i') \<or>
        offset_at (input_offsets (h ! snd edge')) (output_edges (h ! n) ! i') +
          gel n (output_sizes (h ! n) ! i')
          \<le> offset_at (input_offsets (h ! snd edge')) ?e"
      using True by simp
    from slice_present_frame [OF sp [unfolded True] F(11) this] True show ?thesis by simp
  next
    case False
    with F(10) [rule_format, OF e(2)] sp show ?thesis by simp
  qed
  show ?thesis
    unfolding edge_settled_def
    using e(1-3) F(6) F(7) [rule_format, OF v] oo io sp' by simp
qed

lemma forward_copy_keeps_kernel:
  assumes copy: "forward_copy gel tbl n i' h = Inr h'"
    and v: "v < length h" "output_data (h ! v) = K v (input_data (h ! v))"
    and t: "\<And>edge'. tbl (output_edges (h ! n) ! i') = Some edge' \<Longrightarrow> snd edge' \<noteq> v"
  shows "output_data (h' ! v) = K v (input_data (h' ! v))"
proof -
  from copy obtain edge' where
    F: "n < length h" "i' < length (output_edges (h ! n))" "i' < length (output_sizes (h ! n))"
      "tbl (output_edges (h ! n) ! i') = Some edge'" "snd edge' < length h"
      "length h' = length h"
      "\<forall>m<length h.
       input_edges (h' ! m) = input_edges (h ! m) \<and> output_edges (h' ! m) = output_edges (h ! m) \<and>
       output_sizes (h' ! m) = output_sizes (h ! m) \<and> output_data (h' ! m) = output_data (h ! m)"
      "\<forall>m<length h. output_offsets (h' ! m) =
       (if m = n then offset_touch (output_offsets (h ! n)) (output_edges (h ! n) ! i')
        else output_offsets (h ! m))"
      "\<forall>m<length h. input_offsets (h' ! m) =
       (if m = snd edge' then offset_touch (input_offsets (h ! snd edge')) (output_edges (h ! n) ! i')
        else input_offsets (h ! m))"
      "\<forall>m<length h. m \<noteq> snd edge' \<longrightarrow> input_data (h' ! m) = input_data (h ! m)"
      "slice_copied (input_data (h ! snd edge'))
        (offset_at (input_offsets (h ! snd edge')) (output_edges (h ! n) ! i'))
        (output_data (h ! n))
        (offset_at (output_offsets (h ! n)) (output_edges (h ! n) ! i'))
        (gel n (output_sizes (h ! n) ! i'))
        (input_data (h' ! snd edge'))"
    by (rule forward_copy_fields)
  from t [OF F(4)] F(7) [rule_format, OF v(1)] F(10) [rule_format, OF v(1)] v(2) show ?thesis by simp
qed

subsection \<open>A settled node is a fixed point of its visitor\<close>

lemma forward_copy_noop:
  assumes "v < length h" "i < length (output_edges (h ! v))" "edge_settled gel tbl h v i"
  shows "forward_copy gel tbl v i h = Inr h"
proof -
  let ?e = "output_edges (h ! v) ! i"
  from assms(3) obtain edge where
    e: "tbl ?e = Some edge" "snd edge < length h" "i < length (output_sizes (h ! v))"
      "output_offsets (h ! v) ?e \<noteq> None" "input_offsets (h ! snd edge) ?e \<noteq> None"
    and sp: "slice_present (input_data (h ! snd edge)) (offset_at (input_offsets (h ! snd edge)) ?e)
            (output_data (h ! v)) (offset_at (output_offsets (h ! v)) ?e)
            (gel v (output_sizes (h ! v) ! i))"
    by (auto simp: edge_settled_def split: option.splits)
  have h1: "h[v := (h ! v)\<lparr>output_offsets := offset_touch (output_offsets (h ! v)) ?e\<rparr>] = h"
    using offset_touch_present [of "output_offsets (h ! v)" ?e] e(4) by simp
  have h2: "h[snd edge := (h ! snd edge)\<lparr>input_offsets := offset_touch (input_offsets (h ! snd edge)) ?e\<rparr>] = h"
    using offset_touch_present [of "input_offsets (h ! snd edge)" ?e] e(5) by simp
  show ?thesis
    using assms(1,2) e(1-3) memcpy_noop [OF sp]
    by (simp add: forward_copy_def Let_def h1 h2)
qed

text \<open>Evaluating a settled node again changes nothing: the kernel recomputes the output it already holds, and every copy finds its slice in place.\<close>

lemma settled_fixpoint:
  assumes K: "stateless node_kernel K" and s: "settled gel tbl K h v"
  shows "forward_node_eval node_kernel gel tbl v h = Inr h"
proof -
  from s have v: "v < length h" and out: "output_data (h ! v) = K v (input_data (h ! v))"
    and es: "\<forall>i<length (output_edges (h ! v)). edge_settled gel tbl h v i"
    by (simp_all add: settled_def)
  have "node_kernel v (h ! v) = h ! v"
    using K out by (simp add: stateless_def)
  then have k: "h[v := node_kernel v (h ! v)] = h" by simp
  have "copy_loop (forward_copy gel tbl v) [0..<length (output_edges (h ! v))] h = Inr h"
    using v es by (intro copy_loop_noop forward_copy_noop) simp_all
  with v show ?thesis by (simp add: forward_node_eval_def k)
qed

lemma visit_all_noop:
  "(\<And>v. v \<in> set order \<Longrightarrow> node_fn v h = Inr h) \<Longrightarrow> visit_all node_fn order h = Inr h"
  by (induction order) simp_all

lemma kernel_nth:
  assumes "stateless node_kernel K"
  shows "h[n := node_kernel n (h ! n)] ! m =
           (if m = n \<and> n < length h then (h ! m)\<lparr>output_data := K m (input_data (h ! m))\<rparr> else h ! m)"
proof (cases "n < length h")
  case True
  from assms have "node_kernel n (h ! n) = (h ! n)\<lparr>output_data := K n (input_data (h ! n))\<rparr>"
    unfolding stateless_def by blast
  with True show ?thesis by (cases "m = n") simp_all
next
  case False
  then have "length h \<le> n" by simp
  then have "h[n := node_kernel n (h ! n)] = h" by (rule list_update_beyond)
  then have "h[n := node_kernel n (h ! n)] ! m = h ! m" by (simp only:)
  with False show ?thesis by simp
qed

lemma kernel_fields:
  assumes "stateless node_kernel K"
  shows "input_edges (h[n := node_kernel n (h ! n)] ! m) = input_edges (h ! m)"
    and "output_edges (h[n := node_kernel n (h ! n)] ! m) = output_edges (h ! m)"
    and "output_sizes (h[n := node_kernel n (h ! n)] ! m) = output_sizes (h ! m)"
    and "input_offsets (h[n := node_kernel n (h ! n)] ! m) = input_offsets (h ! m)"
    and "output_offsets (h[n := node_kernel n (h ! n)] ! m) = output_offsets (h ! m)"
    and "input_data (h[n := node_kernel n (h ! n)] ! m) = input_data (h ! m)"
  unfolding kernel_nth [OF assms] by simp_all


lemma kernel_layout:
  assumes "stateless node_kernel K" "same_layout h0 h"
  shows "same_layout h0 (h[n := node_kernel n (h ! n)])"
  using assms(2) unfolding same_layout_def kernel_fields [OF assms(1)] by simp

lemma kernel_keeps_edge_settled:
  assumes K: "stateless node_kernel K" and v: "v < length h" "v \<noteq> n"
    and es: "edge_settled gel tbl h v i"
  shows "edge_settled gel tbl (h[n := node_kernel n (h ! n)]) v i"
proof -
  let ?k = "h[n := node_kernel n (h ! n)]"
  have len: "length ?k = length h" by simp
  have "?k ! v = h ! v" using v by simp
  with es show ?thesis
    unfolding edge_settled_def len kernel_fields [OF K] by (auto split: option.splits)
qed

lemma kernel_keeps_settled:
  assumes K: "stateless node_kernel K" and v: "v \<noteq> n" and s: "settled gel tbl K h v"
  shows "settled gel tbl K (h[n := node_kernel n (h ! n)]) v"
proof -
  from s have vl: "v < length h" by (simp add: settled_def)
  have same: "h[n := node_kernel n (h ! n)] ! v = h ! v" using v by simp
  show ?thesis
    unfolding settled_def same
    using s kernel_keeps_edge_settled [OF K vl v] by (simp add: settled_def)
qed

lemma kernel_output:
  assumes "stateless node_kernel K" "n < length h"
  shows "output_data (h[n := node_kernel n (h ! n)] ! n) = K n (input_data (h[n := node_kernel n (h ! n)] ! n))"
  using assms by (simp add: stateless_def)

lemma disjoint_copiesD:
  assumes dis: "disjoint_copies gel tbl h0" and lay: "same_layout h0 x"
    and v: "v < length h0" "i < length (output_edges (h0 ! v))"
    and n: "n < length h0" "i' < length (output_edges (h0 ! n))"
    and ne: "v \<noteq> n \<or> i \<noteq> i'"
    and e: "tbl (output_edges (x ! v) ! i) = Some edge" "tbl (output_edges (x ! n) ! i') = Some edge'"
      "snd edge = snd edge'" "snd edge < length x"
  shows "offset_at (input_offsets (x ! snd edge)) (output_edges (x ! v) ! i) +
          gel v (output_sizes (x ! v) ! i)
          \<le> offset_at (input_offsets (x ! snd edge)) (output_edges (x ! n) ! i') \<or>
        offset_at (input_offsets (x ! snd edge)) (output_edges (x ! n) ! i') +
          gel n (output_sizes (x ! n) ! i')
          \<le> offset_at (input_offsets (x ! snd edge)) (output_edges (x ! v) ! i)"
proof -
  from lay have len: "length x = length h0" by (simp add: same_layout_def)
  from lay v(1) have lv: "output_edges (x ! v) = output_edges (h0 ! v)" "output_sizes (x ! v) = output_sizes (h0 ! v)"
    by (simp_all add: same_layout_def)
  from lay n(1) have ln: "output_edges (x ! n) = output_edges (h0 ! n)" "output_sizes (x ! n) = output_sizes (h0 ! n)"
    by (simp_all add: same_layout_def)
  from lay e(4) len have lt: "offset_at (input_offsets (x ! snd edge)) k = offset_at (input_offsets (h0 ! snd edge)) k" for k
    by (simp add: same_layout_def)
  from e(1,2) have t: "tbl (output_edges (h0 ! v) ! i) = Some edge" "tbl (output_edges (h0 ! n) ! i') = Some edge'"
    by (simp_all add: lv ln)
  from dis v n ne have
    "case (tbl (output_edges (h0 ! v) ! i), tbl (output_edges (h0 ! n) ! i')) of
           (Some edge, Some edge') \<Rightarrow>
             snd edge = snd edge' \<longrightarrow>
               offset_at (input_offsets (h0 ! snd edge)) (output_edges (h0 ! v) ! i) +
                 gel v (output_sizes (h0 ! v) ! i)
                 \<le> offset_at (input_offsets (h0 ! snd edge)) (output_edges (h0 ! n) ! i') \<or>
               offset_at (input_offsets (h0 ! snd edge)) (output_edges (h0 ! n) ! i') +
                 gel n (output_sizes (h0 ! n) ! i')
                 \<le> offset_at (input_offsets (h0 ! snd edge)) (output_edges (h0 ! v) ! i)
         | _ \<Rightarrow> True"
    unfolding disjoint_copies_def by blast
  then have "offset_at (input_offsets (h0 ! snd edge)) (output_edges (h0 ! v) ! i) +
                 gel v (output_sizes (h0 ! v) ! i)
                 \<le> offset_at (input_offsets (h0 ! snd edge)) (output_edges (h0 ! n) ! i') \<or>
               offset_at (input_offsets (h0 ! snd edge)) (output_edges (h0 ! n) ! i') +
                 gel n (output_sizes (h0 ! n) ! i')
                 \<le> offset_at (input_offsets (h0 ! snd edge)) (output_edges (h0 ! v) ! i)"
    unfolding t using e(3) by simp
  then show ?thesis
    unfolding lv ln lt .
qed

subsection \<open>Visiting a node settles it\<close>

lemma same_layout_fields:
  assumes "same_layout h0 x" "v < length h0"
  shows "length x = length h0" "output_edges (x ! v) = output_edges (h0 ! v)"
    "input_edges (x ! v) = input_edges (h0 ! v)" "output_sizes (x ! v) = output_sizes (h0 ! v)"
  using assms by (simp_all add: same_layout_def)

lemma same_layout_length: "same_layout h0 x \<Longrightarrow> length x = length h0"
  by (simp add: same_layout_def)

text \<open>Visiting a node whose targets are not yet settled settles it, and keeps settled every node that was.\<close>

lemma visitor_settles:
  assumes K: "stateless node_kernel K"
    and dis: "disjoint_copies gel tbl h0"
    and lay: "same_layout h0 h"
    and S: "\<forall>v\<in>S. settled gel tbl K h v"
    and n: "n < length h0" "n \<notin> S"
    and tg: "\<forall>i<length (output_edges (h0 ! n)). \<forall>edge.
               tbl (output_edges (h0 ! n) ! i) = Some edge \<longrightarrow> snd edge \<notin> S \<and> snd edge \<noteq> n"
    and run: "forward_node_eval node_kernel gel tbl n h = Inr h'"
  shows "same_layout h0 h' \<and> (\<forall>v\<in>insert n S. settled gel tbl K h' v)"
proof -
  let ?k = "h[n := node_kernel n (h ! n)]"
  let ?m = "length (output_edges (h0 ! n))"
  define J where "J i x \<longleftrightarrow>
      same_layout h0 x \<and> (\<forall>v\<in>S. settled gel tbl K x v) \<and>
      output_data (x ! n) = K n (input_data (x ! n)) \<and> (\<forall>i'<i. edge_settled gel tbl x n i')" for i x
  have len: "length h = length h0" using lay by (simp add: same_layout_def)
  have nh: "n < length h" using n(1) len by simp
  have layk: "same_layout h0 ?k" by (rule kernel_layout [OF K lay])
  have oe: "output_edges (?k ! n) = output_edges (h0 ! n)"
    using same_layout_fields(2) [OF layk n(1)] .
  have oe': "output_edges (node_kernel n (h ! n)) = output_edges (h0 ! n)"
    using oe nh by simp
  from run nh have loop: "copy_loop (forward_copy gel tbl n) [0..<?m] ?k = Inr h'"
    by (simp add: forward_node_eval_def Let_def oe')
  have J0: "J 0 ?k"
    unfolding J_def
  proof (intro conjI ballI allI impI)
    show "same_layout h0 ?k" by (rule layk)
    show "output_data (?k ! n) = K n (input_data (?k ! n))" by (rule kernel_output [OF K nh])
  next
    fix v assume v: "v \<in> S"
    with n(2) have "v \<noteq> n" by blast
    with S v show "settled gel tbl K ?k v" by (intro kernel_keeps_settled [OF K]) simp_all
  next
    fix i' :: nat assume "i' < 0"
    then show "edge_settled gel tbl ?k n i'" by simp
  qed
  have step: "J (Suc i) y" if i: "i < ?m" and Jx: "J i x" and copy: "forward_copy gel tbl n i x = Inr y" for i x y
  proof -
    from Jx have layx: "same_layout h0 x" and Sx: "\<forall>v\<in>S. settled gel tbl K x v"
      and outx: "output_data (x ! n) = K n (input_data (x ! n))"
      and donex: "\<forall>i'<i. edge_settled gel tbl x n i'"
      by (simp_all add: J_def)
    note fx = same_layout_fields [OF layx] and lx = same_layout_length [OF layx]
    have nx: "n < length x" using lx n(1) by simp
    have target: "snd edge' \<notin> S \<and> snd edge' \<noteq> n" if "tbl (output_edges (x ! n) ! i) = Some edge'" for edge'
    proof -
      from that have "tbl (output_edges (h0 ! n) ! i) = Some edge'" by (simp add: fx(2) [OF n(1)])
      with tg i show ?thesis by blast
    qed
    have layy: "same_layout h0 y" by (rule forward_copy_layout [OF copy layx])
    note fy = same_layout_fields [OF layy] and ly = same_layout_length [OF layy]
    have disx: "offset_at (input_offsets (x ! snd edge)) (output_edges (x ! v) ! i0) +
          gel v (output_sizes (x ! v) ! i0)
          \<le> offset_at (input_offsets (x ! snd edge)) (output_edges (x ! n) ! i) \<or>
        offset_at (input_offsets (x ! snd edge)) (output_edges (x ! n) ! i) +
          gel n (output_sizes (x ! n) ! i)
          \<le> offset_at (input_offsets (x ! snd edge)) (output_edges (x ! v) ! i0)"
      if "v < length h0" "i0 < length (output_edges (h0 ! v))" "v \<noteq> n \<or> i0 \<noteq> i"
        "tbl (output_edges (x ! v) ! i0) = Some edge" "tbl (output_edges (x ! n) ! i) = Some edge'"
        "snd edge = snd edge'" "snd edge < length x" for v i0 edge edge'
      using disjoint_copiesD [OF dis layx that(1,2) n(1) i that(3-7)] .
    have keep: "edge_settled gel tbl y v i0"
      if "v < length h0" "i0 < length (output_edges (h0 ! v))" "v \<noteq> n \<or> i0 \<noteq> i"
        "edge_settled gel tbl x v i0" for v i0
    proof (rule forward_copy_keeps_settled [OF copy _ that(4)])
      show "v < length x" using that(1) lx by simp
    next
      fix edge edge'
      assume "tbl (output_edges (x ! v) ! i0) = Some edge" "tbl (output_edges (x ! n) ! i) = Some edge'"
        "snd edge = snd edge'" "snd edge < length x"
      then show "offset_at (input_offsets (x ! snd edge)) (output_edges (x ! v) ! i0) +
          gel v (output_sizes (x ! v) ! i0)
          \<le> offset_at (input_offsets (x ! snd edge)) (output_edges (x ! n) ! i) \<or>
        offset_at (input_offsets (x ! snd edge)) (output_edges (x ! n) ! i) +
          gel n (output_sizes (x ! n) ! i)
          \<le> offset_at (input_offsets (x ! snd edge)) (output_edges (x ! v) ! i0)"
        by (rule disx [OF that(1-3)])
    qed
    show ?thesis
      unfolding J_def
    proof (intro conjI ballI allI impI)
      show "same_layout h0 y" by (rule layy)
    next
      fix v assume v: "v \<in> S"
      with Sx have sv: "settled gel tbl K x v" by blast
      then have vx: "v < length x" and ov: "output_data (x ! v) = K v (input_data (x ! v))"
        and ev: "\<forall>i0<length (output_edges (x ! v)). edge_settled gel tbl x v i0"
        by (simp_all add: settled_def)
      have v0: "v < length h0" using vx lx by simp
      have vn: "v \<noteq> n" using v n(2) by blast
      have "output_data (y ! v) = K v (input_data (y ! v))"
        using target v by (intro forward_copy_keeps_kernel [where K = K, OF copy vx ov]) blast
      moreover have "edge_settled gel tbl y v i0" if "i0 < length (output_edges (y ! v))" for i0
      proof -
        from that have i0: "i0 < length (output_edges (h0 ! v))" by (simp add: fy(2) [OF v0])
        then have "edge_settled gel tbl x v i0" using ev by (simp add: fx(2) [OF v0])
        with keep [OF v0 i0] vn show ?thesis by blast
      qed
      ultimately show "settled gel tbl K y v"
        using vx lx ly by (simp add: settled_def)
    next
      show "output_data (y ! n) = K n (input_data (y ! n))"
        using target by (intro forward_copy_keeps_kernel [where K = K, OF copy nx outx]) blast
    next
      fix i' assume i': "i' < Suc i"
      show "edge_settled gel tbl y n i'"
      proof (cases "i' = i")
        case True
        then show ?thesis using forward_copy_settles [OF copy] by simp
      next
        case False
        with i' have lt: "i' < i" by simp
        with donex have "edge_settled gel tbl x n i'" by blast
        moreover have "i' < ?m" using lt i by simp
        ultimately show ?thesis using keep [OF n(1)] False by blast
      qed
    qed
  qed
  have "J ?m h'"
    by (rule copy_loop_upt [where J = J and step = "forward_copy gel tbl n", OF step _ J0 loop]) simp_all
  then have layh': "same_layout h0 h'" and Sh': "\<forall>v\<in>S. settled gel tbl K h' v"
    and outn: "output_data (h' ! n) = K n (input_data (h' ! n))"
    and alln: "\<forall>i'<?m. edge_settled gel tbl h' n i'"
    by (simp_all add: J_def)
  note fh' = same_layout_fields [OF layh' n(1)] and lh' = same_layout_length [OF layh']
  have "settled gel tbl K h' n"
    using n(1) lh' fh'(2) outn alln by (simp add: settled_def)
  with layh' Sh' show ?thesis by blast
qed

subsection \<open>A whole pass settles every node it visits\<close>

lemma same_layout_refl: "same_layout h h"
  by (simp add: same_layout_def)

lemma same_layout_topology:
  assumes "same_layout h h'"
  shows "same_topology h h'"
  unfolding same_topology_def
  using assms by (auto simp: same_layout_def intro!: nth_equalityI)

lemma same_topology_graph:
  assumes "same_topology h h'"
  shows "consistent h' tbl = consistent h tbl" "dag_rel h' tbl = dag_rel h tbl"
proof -
  note len = same_topology_length [OF assms]
  note nth = same_topology_nth [OF assms]
  show "consistent h' tbl = consistent h tbl"
    unfolding consistent_def len
    by (intro all_cong) (simp add: nth split: option.splits cong: conj_cong)
  show "dag_rel h' tbl = dag_rel h tbl"
    unfolding dag_rel_def len using nth(2) by auto
qed

lemma same_topology_reachable:
  assumes "same_topology h h'"
  shows "reachable forward h' tbl seed = reachable forward h tbl seed"
    and "producers_reachable forward h' tbl seed = producers_reachable forward h tbl seed"
  by (simp_all add: producers_reachable_def reachable_def step_rel_def same_topology_graph(2) [OF assms])

lemma visitor_layout:
  assumes K: "stateless node_kernel K" and run: "forward_node_eval node_kernel gel tbl n h = Inr h'"
  shows "same_layout h h'"
proof -
  from run have n: "n < length h" by (auto simp: forward_node_eval_def split: if_splits)
  with run have loop: "copy_loop (forward_copy gel tbl n)
      [0..<length (output_edges (node_kernel n (h ! n)))] (h[n := node_kernel n (h ! n)]) = Inr h'"
    by (simp add: forward_node_eval_def Let_def)
  show ?thesis
  proof (rule copy_loop_upt [where J = "\<lambda>i x. same_layout h x" and step = "forward_copy gel tbl n", OF _ _ _ loop])
    show "same_layout h (h[n := node_kernel n (h ! n)])"
      by (rule kernel_layout [OF K same_layout_refl])
  qed (auto intro: forward_copy_layout)
qed

lemma visitor_topology:
  assumes "stateless node_kernel K"
  shows "preserves_topology (forward_node_eval node_kernel gel tbl)"
  unfolding preserves_topology_def
  using visitor_layout [OF assms] same_layout_topology by blast

text \<open>Along an order in which producers come first, every visited node is settled at the end.\<close>

lemma visit_all_settles:
  assumes K: "stateless node_kernel K"
    and dis: "disjoint_copies gel tbl h0"
    and con: "consistent h0 tbl"
    and acy: "acyclic (dag_rel h0 tbl)"
    and seed: "seed < length h0"
  shows "distinct (vis @ rest) \<Longrightarrow> producers_first True h0 tbl seed (vis @ rest) \<Longrightarrow>
         set (vis @ rest) \<subseteq> reachable True h0 tbl seed \<Longrightarrow> same_layout h0 hk \<Longrightarrow>
         (\<forall>v\<in>set vis. settled gel tbl K hk v) \<Longrightarrow>
         visit_all (forward_node_eval node_kernel gel tbl) rest hk = Inr h1 \<Longrightarrow>
         same_layout h0 h1 \<and> (\<forall>v\<in>set (vis @ rest). settled gel tbl K h1 v)"
proof (induction rest arbitrary: vis hk)
  case Nil
  then show ?case by simp
next
  case (Cons n rest)
  let ?R = "step_rel True h0 tbl"
  from Cons.prems(6) obtain hk' where
    visit: "forward_node_eval node_kernel gel tbl n hk = Inr hk'"
    and more: "visit_all (forward_node_eval node_kernel gel tbl) rest hk' = Inr h1"
    by (auto split: sum.splits)
  from Cons.prems(3) have n_reach: "n \<in> reachable True h0 tbl seed" by simp
  then have n_valid: "n < length h0" by (rule reachable_valid [OF con seed])
  from Cons.prems(1) have n_new: "n \<notin> set vis" by simp
  have acyR: "acyclic ?R" by (rule acyclic_step_rel [OF acy])
  have tg: "\<forall>i<length (output_edges (h0 ! n)). \<forall>edge.
               tbl (output_edges (h0 ! n) ! i) = Some edge \<longrightarrow> snd edge \<notin> set vis \<and> snd edge \<noteq> n"
  proof (intro allI impI)
    fix i edge
    assume i: "i < length (output_edges (h0 ! n))" and e: "tbl (output_edges (h0 ! n) ! i) = Some edge"
    from i have mem: "output_edges (h0 ! n) ! i \<in> set (output_edges (h0 ! n))" by simp
    from output_edge [OF con n_valid mem] e have "tbl (output_edges (h0 ! n) ! i) = Some (n, snd edge)"
      by auto
    with mem n_valid have step: "(n, snd edge) \<in> ?R"
      by (auto simp: step_rel_def dag_rel_def)
    have "snd edge \<noteq> n"
    proof
      assume "snd edge = n"
      with step have "(n, n) \<in> ?R\<^sup>+" by auto
      with acyR show False by (auto simp: acyclic_def)
    qed
    moreover have "snd edge \<notin> set vis"
    proof
      assume "snd edge \<in> set vis"
      then obtain k where k: "k < length vis" "vis ! k = snd edge"
        by (auto simp: in_set_conv_nth)
      show False
      proof (cases "snd edge = seed")
        case True
        with n_reach step have "(seed, seed) \<in> ?R\<^sup>+"
          by (auto simp: reachable_def intro: rtrancl_into_trancl1)
        with acyR show False by (auto simp: acyclic_def)
      next
        case False
        from k have "(vis @ n # rest) ! k = snd edge" "k < length (vis @ n # rest)"
          by (simp_all add: nth_append)
        with Cons.prems(2) False step have "n \<in> set (take k (vis @ n # rest))"
          unfolding producers_first_def by metis
        with k(1) have "n \<in> set vis" by (auto dest: in_set_takeD)
        with n_new show False by simp
      qed
    qed
    ultimately show "snd edge \<notin> set vis \<and> snd edge \<noteq> n" by simp
  qed
  from visitor_settles [OF K dis Cons.prems(4,5) n_valid n_new tg visit]
  have lay': "same_layout h0 hk'" and S': "\<forall>v\<in>set (vis @ [n]). settled gel tbl K hk' v"
    by simp_all
  from Cons.prems(1-3) have "distinct ((vis @ [n]) @ rest)"
    "producers_first True h0 tbl seed ((vis @ [n]) @ rest)"
    "set ((vis @ [n]) @ rest) \<subseteq> reachable True h0 tbl seed"
    by simp_all
  from Cons.IH [OF this lay' S' more] show ?case by simp
qed

text \<open>The second of two consecutive forward passes returns the heap it started from.\<close>

lemma forward_eval_twice:
  assumes con: "consistent h (edges g)"
    and acy: "acyclic (dag_rel h (edges g))"
    and start: "start_node g < length h"
    and clo: "producers_reachable True h (edges g) (start_node g)"
    and idle: "ready_queue g = []" "eval_map g = Map.empty"
    and K: "stateless node_kernel K"
    and dis: "disjoint_copies gel (edges g) h"
    and first: "forward_eval node_kernel gel t0 t1 (h, g) = Some (Inr (h1, g1))"
    and calls: "forward_evals g1 \<noteq> 2147483647"
  shows "forward_eval node_kernel gel t2 t3 (h1, g1) =
           Some (Inr (h1, g1\<lparr>forward_evals := forward_evals g1 + 1,
                              total_forward_eval_time := total_forward_eval_time g1 + (t3 - t2)\<rparr>))"
proof -
  let ?V = "forward_node_eval node_kernel gel (edges g)"
  let ?seed = "start_node g"
  have pres: "preserves_topology ?V" by (rule visitor_topology [OF K])
  have s: "?seed = (if True then start_node g else end_node g)" by simp
  from traverse_graph_order [OF con acy s start clo idle pres]
  obtain order where order: "distinct order" "set order \<subseteq> reachable True h (edges g) ?seed"
    "producers_first True h (edges g) ?seed order"
    and tg: "traverse_graph ?V True (h, g) =
             Some (case visit_all ?V order h of Inl err \<Rightarrow> Inl err | Inr h' \<Rightarrow> Inr (h', g))"
    and all: "\<forall>h'. visit_all ?V order h = Inr h' \<longrightarrow>
              set order = reachable True h (edges g) ?seed \<and> same_topology h h'"
    by blast
  from first tg obtain hv where va: "visit_all ?V order h = Inr hv"
    by (cases "visit_all ?V order h") (auto simp: forward_eval_def)
  with first tg have h1: "hv = h1"
    and g1: "g1 = g\<lparr>forward_evals := forward_evals g + 1,
                      total_forward_eval_time := total_forward_eval_time g + (t1 - t0)\<rparr>"
    by (auto simp: forward_eval_def split: if_splits)
  from all va h1 have cover: "set order = reachable True h (edges g) ?seed" and top: "same_topology h h1"
    by auto
  from visit_all_settles [where vis = "[]" and rest = order and hk = h and ?h1.0 = h1, OF K dis con acy start] order va h1
  have settled: "\<forall>v\<in>set order. settled gel (edges g) K h1 v"
    by (simp add: same_layout_refl producers_first_def)
  have e1: "edges g1 = edges g" "start_node g1 = start_node g"
    "ready_queue g1 = []" "eval_map g1 = Map.empty"
    using idle by (simp_all add: g1)
  have con1: "consistent h1 (edges g1)" using con by (simp add: e1 same_topology_graph [OF top])
  have acy1: "acyclic (dag_rel h1 (edges g1))" using acy by (simp add: e1 same_topology_graph [OF top])
  have start1: "start_node g1 < length h1" using start by (simp add: e1 same_topology_length [OF top])
  have clo1: "producers_reachable True h1 (edges g1) (start_node g1)"
    using clo by (simp add: e1 same_topology_reachable [OF top])
  have s1: "start_node g1 = (if True then start_node g1 else end_node g1)" by simp
  have pres1: "preserves_topology (forward_node_eval node_kernel gel (edges g1))"
    by (rule visitor_topology [OF K])
  from traverse_graph_order [OF con1 acy1 s1 start1 clo1 e1(3,4) pres1]
  obtain order' where sub: "set order' \<subseteq> reachable True h1 (edges g1) (start_node g1)"
    and tg': "traverse_graph (forward_node_eval node_kernel gel (edges g1)) True (h1, g1) =
             Some (case visit_all (forward_node_eval node_kernel gel (edges g1)) order' h1 of
                     Inl err \<Rightarrow> Inl err | Inr h' \<Rightarrow> Inr (h', g1))"
    by blast
  from sub have "set order' \<subseteq> set order"
    by (simp add: e1 same_topology_reachable [OF top] cover)
  with settled have "\<And>v. v \<in> set order' \<Longrightarrow> ?V v h1 = Inr h1"
    by (intro settled_fixpoint [OF K]) blast
  then have "visit_all ?V order' h1 = Inr h1" by (rule visit_all_noop)
  with tg' have "traverse_graph (forward_node_eval node_kernel gel (edges g1)) True (h1, g1) = Some (Inr (h1, g1))"
    by (simp add: e1)
  with calls show ?thesis by (simp add: forward_eval_def)
qed

subsection \<open>Buffer lengths\<close>

lemma same_sizes_refl: "same_sizes h h"
  by (simp add: same_sizes_def)

lemma same_sizes_trans: "same_sizes h h1 \<Longrightarrow> same_sizes h1 h2 \<Longrightarrow> same_sizes h h2"
  by (simp add: same_sizes_def)

lemma forward_copy_sizes:
  assumes "forward_copy gel tbl n i h = Inr h'"
  shows "same_sizes h h'"
proof -
  from assms obtain edge where F:
    "snd edge < length h" "length h' = length h"
    "\<forall>m<length h. output_data (h' ! m) = output_data (h ! m)"
    "\<forall>m<length h. m \<noteq> snd edge \<longrightarrow> input_data (h' ! m) = input_data (h ! m)"
    "length (input_data (h' ! snd edge)) = length (input_data (h ! snd edge))"
    by (rule forward_copy_fields) (auto simp: slice_copied_def)
  show ?thesis
    unfolding same_sizes_def
  proof (intro conjI allI impI)
    fix m assume m: "m < length h"
    show "length (input_data (h' ! m)) = length (input_data (h ! m))"
      using F(4,5) m by (cases "m = snd edge") simp_all
    show "length (output_data (h' ! m)) = length (output_data (h ! m))"
      using F(3) m by simp
  qed (rule F(2))
qed

lemma kernel_sizes:
  assumes K: "keeps_sizes node_kernel h0" and same: "same_sizes h0 h"
  shows "same_sizes h0 (h[n := node_kernel n (h ! n)])"
proof (cases "n < length h")
  case False
  then have "h[n := node_kernel n (h ! n)] = h" by (intro list_update_beyond) simp
  with same show ?thesis by simp
next
  case True
  from same have len: "length h = length h0"
    and sz: "length (input_data (h ! n)) = length (input_data (h0 ! n))"
      "length (output_data (h ! n)) = length (output_data (h0 ! n))"
    using True by (simp_all add: same_sizes_def)
  from K True len sz have k: "length (input_data (node_kernel n (h ! n))) = length (input_data (h0 ! n))"
    "length (output_data (node_kernel n (h ! n))) = length (output_data (h0 ! n))"
    by (simp_all add: keeps_sizes_def)
  show ?thesis
    unfolding same_sizes_def
  proof (intro conjI allI impI)
    fix m assume m: "m < length h0"
    with same have s: "length (input_data (h ! m)) = length (input_data (h0 ! m))"
      "length (output_data (h ! m)) = length (output_data (h0 ! m))"
      by (simp_all add: same_sizes_def)
    show "length (input_data (h[n := node_kernel n (h ! n)] ! m)) = length (input_data (h0 ! m))"
      using m k(1) s(1) len by (cases "m = n") simp_all
    show "length (output_data (h[n := node_kernel n (h ! n)] ! m)) = length (output_data (h0 ! m))"
      using m k(2) s(2) len by (cases "m = n") simp_all
  qed (simp add: len)
qed

lemma visitor_sizes:
  assumes K: "keeps_sizes node_kernel h0" and same: "same_sizes h0 h"
    and run: "forward_node_eval node_kernel gel tbl n h = Inr h'"
  shows "same_sizes h0 h'"
proof -
  from run have n: "n < length h" by (auto simp: forward_node_eval_def split: if_splits)
  with run have loop: "copy_loop (forward_copy gel tbl n)
      [0..<length (output_edges (node_kernel n (h ! n)))] (h[n := node_kernel n (h ! n)]) = Inr h'"
    by (simp add: forward_node_eval_def Let_def)
  show ?thesis
  proof (rule copy_loop_upt [where J = "\<lambda>i x. same_sizes h0 x" and step = "forward_copy gel tbl n", OF _ _ _ loop])
    show "same_sizes h0 (h[n := node_kernel n (h ! n)])"
      by (rule kernel_sizes [OF K same])
  qed (auto intro: same_sizes_trans forward_copy_sizes)
qed

text \<open>A forward pass keeps the length of every buffer, whatever the graph.\<close>

lemma forward_eval_sizes:
  assumes K: "keeps_sizes node_kernel h"
    and run: "forward_eval node_kernel gel t0 t1 (h, g) = Some (Inr (h', g'))"
  shows "same_sizes h h'"
proof -
  let ?V = "forward_node_eval node_kernel gel (edges g)"
  from run obtain g1 where
    loop: "traverse_loop ?V True (h, g\<lparr>ready_queue := ready_queue g @ [start_node g]\<rparr>) = Some (Inr (h', g1))"
    by (auto simp: forward_eval_def traverse_graph_def Let_def split: option.splits sum.splits if_splits)
  let ?I = "\<lambda>s :: 'a state. same_sizes h (fst s)"
  have "case Inr (h', g1) :: error + 'a state of Inl err \<Rightarrow> True
        | Inr s' \<Rightarrow> ?I s' \<and> ready_queue (snd s') = []"
  proof (rule traverse_loop_invariant [OF loop, where I = ?I])
    show "same_sizes h (fst (h, g\<lparr>ready_queue := ready_queue g @ [start_node g]\<rparr>))"
      by (simp add: same_sizes_refl)
  next
    fix s s' :: "'a state"
    assume I: "same_sizes h (fst s)" and q: "ready_queue (snd s) \<noteq> []"
      and body: "loop_body ?V True s = Inr s'"
    from q obtain c rest where cr: "ready_queue (snd s) = c # rest" by (cases "ready_queue (snd s)") auto
    from loop_body_visit [of ?V True "fst s" "snd s" "fst s'" "snd s'" c rest] body cr
    have "?V c (fst s) = Inr (fst s')" by simp
    from visitor_sizes [OF K I this] show "same_sizes h (fst s')" .
  qed
  then show ?thesis by simp
qed

subsection \<open>Two consecutive calls\<close>

text \<open>
  C8. Repeated calls of \<^verbatim>\<open>forward_eval\<close>. Take a graph whose edge lists and edge table
  agree, that is acyclic, in which every path into a node reachable from the start node
  comes from the start node, whose kernels are stateless, and in which the ranges that
  different edges copy into the same input buffer do not overlap. After a call that
  returned, the next call returns the very same heap: every buffer of every node, the global
  output buffer among them, holds the same content, and only the call counter and the
  cumulated time of the engine change. Moreover a call that returns leaves every node with
  buffers of the lengths they had, for any graph, provided each kernel keeps the lengths of
  its node's buffers.
\<close>

theorem repeated_forward_eval:
  assumes con: "consistent h (edges g)"
    and acy: "acyclic (dag_rel h (edges g))"
    and start: "start_node g < length h"
    and clo: "producers_reachable True h (edges g) (start_node g)"
    and idle: "ready_queue g = []" "eval_map g = Map.empty"
    and K: "stateless node_kernel K"
    and dis: "disjoint_copies get_elem_length (edges g) h"
    and first: "forward_eval node_kernel get_elem_length t0 t1 (h, g) = Some (Inr (h1, g1))"
    and calls: "forward_evals g1 \<noteq> 2147483647"
  shows "forward_eval node_kernel get_elem_length t2 t3 (h1, g1) =
           Some (Inr (h1, g1\<lparr>forward_evals := forward_evals g1 + 1,
                              total_forward_eval_time := total_forward_eval_time g1 + (t3 - t2)\<rparr>)) \<and>
         (\<forall>ta tb s s'. keeps_sizes node_kernel (fst s) \<longrightarrow>
            forward_eval node_kernel get_elem_length ta tb s = Some (Inr s') \<longrightarrow>
            same_sizes (fst s) (fst s'))"
proof (intro conjI allI impI)
  show "forward_eval node_kernel get_elem_length t2 t3 (h1, g1) =
           Some (Inr (h1, g1\<lparr>forward_evals := forward_evals g1 + 1,
                              total_forward_eval_time := total_forward_eval_time g1 + (t3 - t2)\<rparr>))"
    by (rule forward_eval_twice [OF con acy start clo idle K dis first calls])
next
  fix ta tb and s s' :: "'a state"
  assume "keeps_sizes node_kernel (fst s)"
    and "forward_eval node_kernel get_elem_length ta tb s = Some (Inr s')"
  then show "same_sizes (fst s) (fst s')"
    using forward_eval_sizes [of node_kernel "fst s" get_elem_length ta tb "snd s" "fst s'" "snd s'"]
    by simp
qed

theorem repeated_forward_eval_witness:
  "\<exists>h1 g1. forward_eval sample_forward_kernel sample_elem_length 0 1 (sample_heap, sample_dag) = Some (Inr (h1, g1)) \<and>
     read_buffer h1 (get_forward_output g1) = Inr [5] \<and>
     forward_eval sample_forward_kernel sample_elem_length 1 2 (h1, g1) =
       Some (Inr (h1, g1\<lparr>forward_evals := 2, total_forward_eval_time := 2\<rparr>)) \<and>
     same_sizes sample_heap h1"
proof -
  have "\<exists>h1 g1. forward_eval sample_forward_kernel sample_elem_length 0 1 (sample_heap, sample_dag) = Some (Inr (h1, g1)) \<and>
     read_buffer h1 (get_forward_output g1) = Inr [5] \<and> forward_evals g1 = 1 \<and> total_forward_eval_time g1 = 1"
    by (simp add: engine_defs sample_defs traverse_loop.simps)
  then obtain h1 g1 where
    first: "forward_eval sample_forward_kernel sample_elem_length 0 1 (sample_heap, sample_dag) = Some (Inr (h1, g1))"
    and out: "read_buffer h1 (get_forward_output g1) = Inr [5]"
    and cnt: "forward_evals g1 = 1" "total_forward_eval_time g1 = 1"
    by blast
  have e: "edges sample_dag = sample_edges" "start_node sample_dag = 0"
    "ready_queue sample_dag = []" "eval_map sample_dag = Map.empty"
    by (simp_all add: sample_dag_def)
  have len: "length sample_heap = 4" by (simp add: sample_heap_def)
  have K: "stateless sample_forward_kernel sample_K"
    by (simp add: stateless_def sample_forward_kernel_def sample_K_def)
  have dis: "disjoint_copies sample_elem_length sample_edges sample_heap"
    by (simp add: disjoint_copies_def sample_heap_def sample_edges_def sample_elem_length_def
        offset_at_def All_less_Suc)
  have sz: "keeps_sizes sample_forward_kernel sample_heap"
    by (simp add: keeps_sizes_def sample_heap_def sample_forward_kernel_def All_less_Suc)
  from repeated_forward_eval [of sample_heap sample_dag sample_forward_kernel sample_K
      sample_elem_length 0 1 h1 g1 1 2]
    sample_consistent sample_acyclic sample_producers_reachable(1) K dis first cnt(1) e len
  have A: "forward_eval sample_forward_kernel sample_elem_length 1 2 (h1, g1) =
           Some (Inr (h1, g1\<lparr>forward_evals := forward_evals g1 + 1,
                              total_forward_eval_time := total_forward_eval_time g1 + (2 - 1)\<rparr>))"
    and B: "\<forall>ta tb s s'. keeps_sizes sample_forward_kernel (fst s) \<longrightarrow>
            forward_eval sample_forward_kernel sample_elem_length ta tb s = Some (Inr s') \<longrightarrow>
            same_sizes (fst s) (fst s')"
    by simp_all
  from B [rule_format, of "(sample_heap, sample_dag)" 0 1 "(h1, g1)"] sz first
  have "same_sizes sample_heap h1" by simp
  with first out A cnt show ?thesis by (intro exI [of _ h1] exI [of _ g1]) simp
qed

end
